theory Spec2Isabelle
  imports Complex_Main "HOL-Library.Word"
begin

section \<open>Arithmetic Event Horizon: the signature analyzer of event\_horizon.py\<close>

text \<open>
  \<open>power_mod\<close> and \<open>analyze_physics\<close> are compiled by numba (\<open>@njit\<close>): their integer
  arguments and variables are int64. An int64 value is modelled as the \<^typ>\<open>int\<close> it
  denotes, and the wrap-around is written out at every operation whose exact result can
  leave the int64 range for some arguments: the two products of \<open>power_mod\<close> and the cubic
  of line 59. The remaining integer operations of \<open>analyze_physics\<close> act on values bounded
  by the table's primes. Isabelle's \<open>mod\<close> and \<open>div\<close> on \<^typ>\<open>int\<close> round towards minus
  infinity, as Python's \<open>%\<close> and \<open>//\<close> do. Every statement of the source that can raise is
  a branch of the model that returns the error as a value.
\<close>

datatype py_error = ZeroDivisionError | IndexError

subsection \<open>64-bit integers\<close>

text \<open>
  \<open>in_int64 k\<close> says that the integer \<open>k\<close> is representable; \<open>wrap64 k\<close> is the int64 value
  that an operation with the exact result \<open>k\<close> leaves: \<open>k\<close> reduced modulo \<open>2^64\<close> into
  \<open>[-2^63, 2^63)\<close>.
\<close>

type_synonym int64 = "64 word"

definition in_int64 :: "int \<Rightarrow> bool" where
  "in_int64 k = (- (2 ^ 63) \<le> k \<and> k < 2 ^ 63)"

definition wrap64 :: "int \<Rightarrow> int" where
  "wrap64 k = sint (word_of_int k :: int64)"

subsection \<open>\<open>power_mod\<close> (lines 31--40)\<close>

text \<open>
  The \<open>while exp > 0\<close> loop. Its state is \<open>(res, base, exp)\<close> (written \<open>e\<close> below); \<open>mod\<close> is
  never assigned. The products \<open>res * base\<close> and \<open>base * base\<close> are int64 products.
  \<open>exp >>= 1\<close> is \<open>drop_bit 1\<close>.
\<close>

function power_mod_loop :: "int \<Rightarrow> int \<Rightarrow> int \<Rightarrow> int \<Rightarrow> int" where
  "power_mod_loop res base e m =
     (if e > 0
      then power_mod_loop (if e mod 2 = 1 then wrap64 (res * base) mod m else res)
                          (wrap64 (base * base) mod m) (drop_bit 1 e) m
      else res)"
  by pat_completeness auto
termination
  by (relation "measure (\<lambda>(res, base, e, m). nat e)") (auto simp: drop_bit_eq_div)

declare power_mod_loop.simps [simp del]

text \<open>
  \<open>res = 1; base %= mod\<close>, then the loop. \<open>base %= mod\<close> raises \<open>ZeroDivisionError\<close>
  exactly when \<open>mod = 0\<close>; past that statement \<open>mod\<close> is nonzero, so no \<open>%\<close> of the loop
  can raise.
\<close>

definition power_mod :: "int \<Rightarrow> int \<Rightarrow> int \<Rightarrow> py_error + int" where
  "power_mod base e m =
     (if m = 0 then Inl ZeroDivisionError
      else Inr (power_mod_loop 1 (base mod m) e m))"

subsection \<open>The prime table (lines 23--28)\<close>

text \<open>
  Primality by trial division: \<open>d\<close> runs from 2 while \<open>d * d \<le> n\<close>. It is proved below
  (\<open>is_prime_iff\<close>) to be primality in the usual sense.
\<close>

function trial_division :: "int \<Rightarrow> int \<Rightarrow> bool" where
  "trial_division n d =
     (if d * d \<le> n \<and> 0 < d
      then (if n mod d = 0 then False else trial_division n (d + 1))
      else True)"
  by pat_completeness auto
termination
proof (relation "measure (\<lambda>(n, d). nat (n + 1 - d))", goal_cases)
  case 1
  show ?case by simp
next
  case (2 n d)
  then have pos: "0 < d" and sq: "d * d \<le> n" by auto
  have "d \<le> d * d" using mult_left_mono [of 1 d d] pos by simp
  with sq have "d \<le> n" by linarith
  then show ?case by simp
qed

declare trial_division.simps [simp del]

definition is_prime :: "int \<Rightarrow> bool" where
  "is_prime n = (1 < n \<and> trial_division n 2)"

text \<open>
  Modelled from the spec: \<open>sieve.primerange\<close> belongs to the sympy library and is not
  under src/. Section 4.1 of the spec says that the table holds the first N primes in
  ascending order starting from 2; \<open>primerange a b\<close> is the ascending list of the primes
  of \<open>[a, b)\<close>.
\<close>

definition primerange :: "int \<Rightarrow> int \<Rightarrow> int list" where
  "primerange a b = filter is_prime [a..b - 1]"

definition PRIMES_COUNT :: nat where
  "PRIMES_COUNT = 400"

text \<open>\<open>PRIMES = np.array(list(sieve.primerange(2, 3000))[:PRIMES_COUNT], dtype=np.int64)\<close>\<close>

definition PRIMES :: "int list" where
  "PRIMES = take PRIMES_COUNT (primerange 2 3000)"

subsection \<open>Floating point\<close>

text \<open>
  The analytic score is a float64. Its operations are parameters of the model: the
  theorems about the score hold for every interpretation of \<open>0.0\<close>, \<open>+\<close>, \<open>*\<close>, \<open>/\<close>,
  the conversion of an integer and \<open>np.log2\<close>, IEEE 754 double arithmetic included.
  No algebraic law (associativity, commutativity) is assumed of them.
\<close>

record 'f float_ops =
  fzero :: "'f"
  fadd :: "'f \<Rightarrow> 'f \<Rightarrow> 'f"
  fmul :: "'f \<Rightarrow> 'f \<Rightarrow> 'f"
  fdiv :: "'f \<Rightarrow> 'f \<Rightarrow> 'f"
  float_of_int :: "int \<Rightarrow> 'f"
  flog2 :: "'f \<Rightarrow> 'f"

text \<open>\<open>LOGS2 = np.log2(PRIMES)\<close>: elementwise, after conversion to float64.\<close>

definition LOGS2 :: "'f float_ops \<Rightarrow> 'f list" where
  "LOGS2 ops = map (\<lambda>p. flog2 ops (float_of_int ops p)) PRIMES"

text \<open>Indexing an array with a non-negative index; out of range is \<open>IndexError\<close>.\<close>

definition getitem :: "'a list \<Rightarrow> nat \<Rightarrow> py_error + 'a" where
  "getitem xs i = (if i < length xs then Inr (xs ! i) else Inl IndexError)"

subsection \<open>Line 59 in 64-bit arithmetic\<close>

text \<open>
  numba types \<open>a\<close>, \<open>b\<close>, \<open>x\<close> and \<open>p\<close> as int64: \<open>+\<close> and \<open>*\<close> wrap around, and \<open>%\<close> keeps
  Python's rounding on the signed values. \<open>fx_int64\<close> is line 59,
  \<open>fx = (x*x*x + a*x + b) % p\<close>, evaluated that way. \<open>% p\<close> raises when \<open>p = 0\<close>.
\<close>

definition fx_int64 :: "int64 \<Rightarrow> int64 \<Rightarrow> int64 \<Rightarrow> int64 \<Rightarrow> py_error + int64" where
  "fx_int64 x a b p =
     (if p = 0 then Inl ZeroDivisionError
      else Inr (word_of_int (sint (x * x * x + a * x + b) mod sint p)))"

subsection \<open>\<open>analyze_physics\<close> (lines 42--91)\<close>

text \<open>
  Lines 59--65, the body of \<open>for x in range(p)\<close> up to the value \<open>val\<close> that is added to
  \<open>ls_sum\<close>. Line 59 is \<open>fx_int64\<close> on the int64 values of \<open>x\<close>, \<open>a\<close>, \<open>b\<close> and \<open>p\<close>.
\<close>

definition legendre_val :: "int \<Rightarrow> int \<Rightarrow> int \<Rightarrow> int \<Rightarrow> py_error + int" where
  "legendre_val a b p x =
     (case fx_int64 (word_of_int x) (word_of_int a) (word_of_int b) (word_of_int p) of
        Inl err \<Rightarrow> Inl err
      | Inr fx64 \<Rightarrow>
          let fx = sint fx64 in
          if fx = 0 then Inr 0
          else
            (case power_mod fx ((p - 1) div 2) p of
               Inl err \<Rightarrow> Inl err
             | Inr val \<Rightarrow> Inr (if val = p - 1 then - 1 else val)))"

text \<open>Lines 57--66: \<open>ls_sum = 0; for x in range(p): ...; ls_sum += val\<close>, entered with \<open>x = 0\<close>.\<close>

function ls_sum_loop :: "int \<Rightarrow> int \<Rightarrow> int \<Rightarrow> int \<Rightarrow> int \<Rightarrow> py_error + int" where
  "ls_sum_loop a b p x ls_sum =
     (if x < p
      then (case legendre_val a b p x of
              Inl err \<Rightarrow> Inl err
            | Inr val \<Rightarrow> ls_sum_loop a b p (x + 1) (ls_sum + val))
      else Inr ls_sum)"
  by pat_completeness auto
termination
  by (relation "measure (\<lambda>(a, b, p, x, ls_sum). nat (p - x))") auto

declare ls_sum_loop.simps [simp del]

text \<open>
  Lines 77--87: the glide loop, entered with \<open>curr = Np\<close> and \<open>steps = 0\<close>; \<open>curr\<close> is
  written \<open>cur\<close>. The \<open>break\<close> leaves the loop with the step count just incremented.
\<close>

function glide_loop :: "int \<Rightarrow> int \<Rightarrow> int \<Rightarrow> int" where
  "glide_loop Np cur steps =
     (if cur > 1 \<and> steps < 300
      then
        (let cur' = (if cur mod 2 = 0 then drop_bit 1 cur else 3 * cur + 1);
             steps' = steps + 1
         in if cur' < Np then steps' else glide_loop Np cur' steps')
      else steps)"
  by pat_completeness auto
termination
  by (relation "measure (\<lambda>(Np, cur, steps). nat (300 - steps))") auto

declare glide_loop.simps [simp del]

text \<open>
  Lines 53--89: one iteration of \<open>for i in range(PRIMES_COUNT)\<close>, from the state
  \<open>(bsd_score, max_glide)\<close> to the next one. \<open>/ p\<close> raises when \<open>p = 0\<close>.
\<close>

definition prime_step ::
  "'f float_ops \<Rightarrow> int \<Rightarrow> int \<Rightarrow> nat \<Rightarrow> 'f \<Rightarrow> int \<Rightarrow> py_error + 'f \<times> int" where
  "prime_step ops a b i bsd_score max_glide =
     (case getitem PRIMES i of
        Inl err \<Rightarrow> Inl err
      | Inr p \<Rightarrow>
          (case ls_sum_loop a b p 0 0 of
             Inl err \<Rightarrow> Inl err
           | Inr ls_sum \<Rightarrow>
               let ap = - ls_sum in
               (case getitem (LOGS2 ops) i of
                  Inl err \<Rightarrow> Inl err
                | Inr lg \<Rightarrow>
                    if p = 0 then Inl ZeroDivisionError
                    else
                      let bsd_score' =
                            fadd ops bsd_score
                              (fdiv ops (fmul ops (float_of_int ops ap) lg) (float_of_int ops p));
                          Np = p + 1 - ap;
                          steps = glide_loop Np Np 0;
                          max_glide' = (if steps > max_glide then steps else max_glide)
                      in Inr (bsd_score', max_glide'))))"

function analyze_loop ::
  "'f float_ops \<Rightarrow> int \<Rightarrow> int \<Rightarrow> nat \<Rightarrow> 'f \<Rightarrow> int \<Rightarrow> py_error + 'f \<times> int" where
  "analyze_loop ops a b i bsd_score max_glide =
     (if i < PRIMES_COUNT
      then (case prime_step ops a b i bsd_score max_glide of
              Inl err \<Rightarrow> Inl err
            | Inr (bsd_score', max_glide') \<Rightarrow> analyze_loop ops a b (i + 1) bsd_score' max_glide')
      else Inr (bsd_score, max_glide))"
  by pat_completeness auto
termination
  by (relation "measure (\<lambda>(ops, a, b, i, bsd_score, max_glide). PRIMES_COUNT - i)") auto

declare analyze_loop.simps [simp del]

text \<open>\<open>bsd_score = 0.0; max_glide = 0\<close>, the loop, \<open>return bsd_score, max_glide\<close>.\<close>

definition analyze_physics :: "'f float_ops \<Rightarrow> int \<Rightarrow> int \<Rightarrow> py_error + 'f \<times> int" where
  "analyze_physics ops a b = analyze_loop ops a b 0 (fzero ops) 0"

subsection \<open>The probe classification (lines 117--124)\<close>

text \<open>
  \<open>score\<close> is a float64: a finite value, an infinity or NaN. An ordered comparison with
  NaN is false. The three branches of \<open>probe_manual\<close> print the three labels.
\<close>

datatype py_float = Finite real | PosInf | NegInf | NaN

fun float_lt :: "py_float \<Rightarrow> py_float \<Rightarrow> bool" where
  "float_lt NaN y = False"
| "float_lt x NaN = False"
| "float_lt (Finite x) (Finite y) = (x < y)"
| "float_lt (Finite x) PosInf = True"
| "float_lt (Finite x) NegInf = False"
| "float_lt PosInf y = False"
| "float_lt NegInf NegInf = False"
| "float_lt NegInf y = True"

definition float_gt :: "py_float \<Rightarrow> py_float \<Rightarrow> bool" where
  "float_gt x y = float_lt y x"

datatype classification = HIGH_RANK_CANDIDATE | LOW_RANK | INDETERMINATE

definition probe_manual_classification :: "py_float \<Rightarrow> int \<Rightarrow> classification" where
  "probe_manual_classification score glide =
     (if float_lt score (Finite (- 25.0)) \<and> glide > 65 then HIGH_RANK_CANDIDATE
      else if float_gt score (Finite (- 10.0)) then LOW_RANK
      else INDETERMINATE)"

subsection \<open>The quantities the specification names\<close>

text \<open>
  The specification describes the result of \<open>analyze_physics\<close> by closed formulas; they
  are written down here, and the theorems below relate them to the loops above.
  \<open>legendre_remap\<close> is the remapped per-residue value of the exact residue
  \<open>(x^3 + A*x + B) mod p\<close>, with the power written mathematically, and \<open>local_trace\<close> the
  trace \<open>ap\<close> it gives. \<open>int64_residue\<close> is the residue of the cubic evaluated in int64,
  \<open>legendre_remap_int64\<close> and \<open>local_trace_int64\<close> are the per-residue value and the trace
  of that residue. \<open>group_order\<close> is \<open>Np\<close>, \<open>glide_value\<close> is the step count of the glide
  loop entered at \<open>Np\<close>, \<open>score_term\<close> is \<open>(ap * log2(p)) / p\<close> for the prime of index \<open>i\<close>.
  \<open>collatz_step\<close> is one step of the 3x+1 map, and \<open>glide_stop Np k\<close> says that the glide
  loop entered at \<open>Np\<close> does not go beyond its \<open>k\<close>-th step: the cap is reached, or the
  orbit is at most 1, or a step has been taken and the orbit is below \<open>Np\<close>.
\<close>

definition legendre_remap :: "int \<Rightarrow> int \<Rightarrow> int \<Rightarrow> int \<Rightarrow> int" where
  "legendre_remap A B p x =
     (let fx = (x ^ 3 + A * x + B) mod p;
          v = fx ^ nat ((p - 1) div 2) mod p
      in if fx = 0 then 0 else if v = p - 1 then - 1 else v)"

definition local_trace :: "int \<Rightarrow> int \<Rightarrow> int \<Rightarrow> int" where
  "local_trace A B p = - (\<Sum>x = 0..<p. legendre_remap A B p x)"

definition int64_residue :: "int \<Rightarrow> int \<Rightarrow> int \<Rightarrow> int \<Rightarrow> int" where
  "int64_residue A B p x = wrap64 (x ^ 3 + A * x + B) mod p"

definition legendre_remap_int64 :: "int \<Rightarrow> int \<Rightarrow> int \<Rightarrow> int \<Rightarrow> int" where
  "legendre_remap_int64 A B p x =
     (let fx = int64_residue A B p x;
          v = fx ^ nat ((p - 1) div 2) mod p
      in if fx = 0 then 0 else if v = p - 1 then - 1 else v)"

definition local_trace_int64 :: "int \<Rightarrow> int \<Rightarrow> int \<Rightarrow> int" where
  "local_trace_int64 A B p = - (\<Sum>x = 0..<p. legendre_remap_int64 A B p x)"

definition group_order :: "int \<Rightarrow> int \<Rightarrow> int \<Rightarrow> int" where
  "group_order A B p = p + 1 - local_trace_int64 A B p"

definition glide_value :: "int \<Rightarrow> int" where
  "glide_value Np = glide_loop Np Np 0"

definition collatz_step :: "int \<Rightarrow> int" where
  "collatz_step c = (if c mod 2 = 0 then c div 2 else 3 * c + 1)"

definition glide_stop :: "int \<Rightarrow> nat \<Rightarrow> bool" where
  "glide_stop Np k \<longleftrightarrow>
     k = 300 \<or> (collatz_step ^^ k) Np \<le> 1 \<or> (0 < k \<and> (collatz_step ^^ k) Np < Np)"

definition score_term :: "'f float_ops \<Rightarrow> int \<Rightarrow> int \<Rightarrow> nat \<Rightarrow> 'f" where
  "score_term ops A B i =
     fdiv ops
       (fmul ops (float_of_int ops (local_trace_int64 A B (PRIMES ! i)))
                 (flog2 ops (float_of_int ops (PRIMES ! i))))
       (float_of_int ops (PRIMES ! i))"

definition analytic_score :: "'f float_ops \<Rightarrow> int \<Rightarrow> int \<Rightarrow> 'f" where
  "analytic_score ops A B =
     foldl (\<lambda>total i. fadd ops total (score_term ops A B i)) (fzero ops) [0..<PRIMES_COUNT]"

definition dynamic_resistance :: "int \<Rightarrow> int \<Rightarrow> int" where
  "dynamic_resistance A B = Max ((\<lambda>p. glide_value (group_order A B p)) ` set PRIMES)"

section \<open>64-bit wrap-around\<close>

lemma sint_word_of_int64:
  assumes "in_int64 k"
  shows "sint (word_of_int k :: int64) = k"
proof -
  have "sint (word_of_int k :: int64) = signed_take_bit (LENGTH(64) - 1) k"
    by (rule sint_sbintrunc')
  also have "\<dots> = k"
    using assms by (intro signed_take_bit_int_eq_self) (simp_all add: in_int64_def)
  finally show ?thesis .
qed

lemma wrap64_eq: "wrap64 k = (k + 2 ^ 63) mod 2 ^ 64 - 2 ^ 63"
  by (simp add: wrap64_def int_word_sint)

lemma wrap64_id: "in_int64 k \<Longrightarrow> wrap64 k = k"
  unfolding wrap64_def by (rule sint_word_of_int64)

lemma wrap64_mult_small:
  assumes "0 \<le> a" "a < m" "0 \<le> b" "b < m" "(m - 1) * (m - 1) < 2 ^ 63"
  shows "wrap64 (a * b) = a * b"
proof -
  have "a * b \<le> (m - 1) * (m - 1)"
    using assms(1-4) by (intro mult_mono) auto
  moreover have "0 \<le> a * b" using assms(1,3) by simp
  ultimately have "in_int64 (a * b)"
    using assms(5) by (simp add: in_int64_def)
  then show ?thesis by (rule wrap64_id)
qed

lemma small_modulus_int64:
  assumes "1 < m" and "(m - 1) * (m - 1) < 2 ^ 63"
  shows "in_int64 m"
proof -
  have "m < 2 ^ 63"
  proof (rule ccontr)
    assume "\<not> m < 2 ^ 63"
    then have big: "2 ^ 63 - 1 \<le> m - 1" by simp
    then have "2 * (m - 1) \<le> (m - 1) * (m - 1)"
      by (intro mult_right_mono) auto
    with big assms(2) show False by simp
  qed
  with assms(1) show ?thesis by (simp add: in_int64_def)
qed

section \<open>Properties of \<open>power_mod\<close>\<close>

lemma power_mod_loop_exit: "e \<le> 0 \<Longrightarrow> power_mod_loop res base e m = res"
  by (subst power_mod_loop.simps) simp

lemma power_mod_loop_correct:
  "(m - 1) * (m - 1) < 2 ^ 63 \<Longrightarrow> 0 \<le> e \<Longrightarrow> 0 \<le> res \<Longrightarrow> res < m \<Longrightarrow>
   0 \<le> base \<Longrightarrow> base < m \<Longrightarrow>
     power_mod_loop res base e m = (res * base ^ nat e) mod m"
proof (induction res base e m rule: power_mod_loop.induct)
  case (1 res base e m)
  note small = "1.prems"(1)
  have res: "0 \<le> res" "res < m" and base: "0 \<le> base" "base < m"
    using "1.prems" by simp_all
  show ?case
  proof (cases "e > 0")
    case False
    with "1.prems" show ?thesis
      by (simp add: power_mod_loop_exit)
  next
    case True
    define res' where "res' = (if e mod 2 = 1 then wrap64 (res * base) mod m else res)"
    define base' where "base' = wrap64 (base * base) mod m"
    define k where "k = nat (drop_bit 1 e)"
    have m_pos: "0 < m" using res by linarith
    have w1: "wrap64 (res * base) = res * base"
      using res base small by (intro wrap64_mult_small [of _ m]) auto
    have w2: "wrap64 (base * base) = base * base"
      using base small by (intro wrap64_mult_small [of _ m]) auto
    have res'_bounds: "0 \<le> res'" "res' < m"
      using res m_pos by (auto simp: res'_def)
    have base'_bounds: "0 \<le> base'" "base' < m"
      using m_pos by (auto simp: base'_def)
    have half: "0 \<le> drop_bit 1 e" using True by (simp add: drop_bit_eq_div)
    have IH: "power_mod_loop res' base' (drop_bit 1 e) m = (res' * base' ^ k) mod m"
      using "1.IH" [OF True small half] res'_bounds base'_bounds
      by (simp add: res'_def base'_def k_def)
    have unfold: "power_mod_loop res base e m = power_mod_loop res' base' (drop_bit 1 e) m"
      using True by (subst power_mod_loop.simps) (simp add: res'_def base'_def)
    have sq: "(res' * base' ^ k) mod m = (res' * (base * base) ^ k) mod m"
      unfolding base'_def w2 by (metis mod_mult_right_eq power_mod)
    have pw: "(base * base) ^ k = base ^ (2 * k)"
      by (simp add: power_mult power2_eq_square)
    have step: "(res' * base ^ (2 * k)) mod m = (res * base ^ nat e) mod m"
    proof (cases "e mod 2 = 1")
      case odd: True
      have e: "nat e = Suc (2 * k)"
        unfolding k_def drop_bit_eq_div using True odd
        by (simp add: nat_eq_iff; presburger)
      have "(res' * base ^ (2 * k)) mod m = (res * base * base ^ (2 * k)) mod m"
        using odd by (simp add: res'_def w1 mod_mult_left_eq)
      also have "res * base * base ^ (2 * k) = res * base ^ Suc (2 * k)"
        by (simp only: power_Suc mult.assoc)
      finally show ?thesis
        by (simp only: e)
    next
      case even: False
      have e: "nat e = 2 * k"
        unfolding k_def drop_bit_eq_div using True even
        by (simp add: nat_eq_iff; presburger)
      have "res' = res" using even by (simp add: res'_def)
      then show ?thesis
        by (simp only: e)
    qed
    show ?thesis
      by (simp only: unfold IH sq pw step)
  qed
qed

lemma power_mod_value:
  assumes "0 \<le> e" "1 < m" "(m - 1) * (m - 1) < 2 ^ 63"
  shows "power_mod base e m = Inr (base ^ nat e mod m)"
proof -
  have "power_mod_loop 1 (base mod m) e m = (1 * (base mod m) ^ nat e) mod m"
    using assms by (intro power_mod_loop_correct) auto
  also have "\<dots> = base ^ nat e mod m"
    by (simp add: power_mod)
  finally show ?thesis
    using assms by (simp add: power_mod_def)
qed

text \<open>
  Claim C3, as stated, fails: for the modulus \<open>2^63 - 1\<close> the square of the base \<open>2^32\<close>
  wraps around to 0, and \<open>power_mod\<close> returns 0 where \<open>(2^32)^2 mod (2^63 - 1)\<close> is 2.
\<close>

theorem power_mod_wraps:
  "(0::int) \<le> 2 \<and> (1::int) < 2 ^ 63 - 1
   \<and> power_mod (2 ^ 32) 2 (2 ^ 63 - 1) = Inr 0
   \<and> ((2::int) ^ 32) ^ nat 2 mod (2 ^ 63 - 1) = 2"
proof -
  have "power_mod_loop 1 (2 ^ 32) 2 (2 ^ 63 - 1) = 0"
    by (simp add: power_mod_loop.simps wrap64_eq drop_bit_eq_div)
  then have "power_mod (2 ^ 32) 2 (2 ^ 63 - 1) = Inr 0"
    by (simp add: power_mod_def)
  then show ?thesis by simp
qed

text \<open>
  Claim C3, amended. For every integer base (negative ones included), every exponent
  \<open>e \<ge> 0\<close> and every modulus \<open>m > 1\<close> whose products fit, \<open>(m - 1)^2 < 2^63\<close>,
  \<open>power_mod base e m\<close> returns \<open>base ^ e mod m\<close>, a value of \<open>[0, m)\<close>;
  \<open>power_mod base 0 m\<close> returns 1; and reducing the base modulo \<open>m\<close> first does not change
  the result.
\<close>

theorem power_mod_correct:
  assumes "0 \<le> e" and "1 < m" and "(m - 1) * (m - 1) < 2 ^ 63"
  shows "power_mod base e m = Inr (base ^ nat e mod m)
       \<and> 0 \<le> base ^ nat e mod m \<and> base ^ nat e mod m < m
       \<and> power_mod base 0 m = Inr 1
       \<and> power_mod (base mod m) e m = power_mod base e m"
proof -
  have v: "power_mod base e m = Inr (base ^ nat e mod m)"
    using assms by (rule power_mod_value)
  have r: "0 \<le> base ^ nat e mod m \<and> base ^ nat e mod m < m"
    using assms by simp
  have z: "power_mod base 0 m = Inr 1"
    using assms by (simp add: power_mod_def power_mod_loop_exit)
  have i: "power_mod (base mod m) e m = power_mod base e m"
    by (simp add: power_mod_def)
  from v r z i show ?thesis by blast
qed

theorem power_mod_correct_witness:
  "(0::int) \<le> 5 \<and> (1::int) < 13 \<and> ((13::int) - 1) * (13 - 1) < 2 ^ 63
   \<and> power_mod (- 7) 5 13 = Inr ((- 7) ^ nat 5 mod 13)
   \<and> power_mod (- 7) 5 13 = Inr 2
   \<and> power_mod (- 7) 0 13 = Inr 1
   \<and> power_mod ((- 7) mod 13) 5 13 = power_mod (- 7) 5 13"
proof -
  have h1: "(0::int) \<le> 5" and h2: "(1::int) < 13"
    and h3: "((13::int) - 1) * (13 - 1) < 2 ^ 63" by simp_all
  have "(- 7 :: int) ^ nat 5 mod 13 = 2" by (simp add: eval_nat_numeral)
  with power_mod_correct [OF h1 h2 h3, of "- 7"] h3 show ?thesis by simp
qed

text \<open>
  Claim C10. For every base and every exponent \<open>e \<le> 0\<close> (negative ones included) the loop
  body is not entered: the loop returns its initial \<open>res\<close> unchanged, so for every
  modulus \<open>m \<ge> 1\<close> the call returns exactly 1, neither raising nor looping. In
  particular \<open>power_mod base 0 1\<close> returns 1, which is not in \<open>[0, 1)\<close>.
\<close>

theorem power_mod_nonpositive_exponent:
  assumes "e \<le> 0" and "1 \<le> m"
  shows "power_mod base e m = Inr 1
       \<and> (\<forall>res b. power_mod_loop res b e m = res)
       \<and> power_mod base 0 1 = Inr 1 \<and> \<not> (0 \<le> (1::int) \<and> (1::int) < 1)"
  using assms by (simp add: power_mod_def power_mod_loop_exit)

theorem power_mod_nonpositive_exponent_witness:
  "(- 3 :: int) \<le> 0 \<and> (1::int) \<le> 1 \<and> power_mod 5 (- 3) 1 = Inr 1
   \<and> power_mod 5 0 1 = Inr 1"
proof -
  have h1: "(- 3 :: int) \<le> 0" and h2: "(1::int) \<le> 1" by simp_all
  from power_mod_nonpositive_exponent [OF h1 h2, of 5] show ?thesis by simp
qed

section \<open>The prime table\<close>

lemma primerange_member: "p \<in> set (primerange a b) \<longleftrightarrow> a \<le> p \<and> p < b \<and> is_prime p"
proof -
  have "p \<in> set (primerange a b) \<longleftrightarrow> p \<in> {a..b - 1} \<and> is_prime p"
    unfolding primerange_def by (simp only: set_filter set_upto mem_Collect_eq)
  then show ?thesis by auto
qed

lemma PRIMES_member:
  assumes "p \<in> set PRIMES"
  shows "2 \<le> p \<and> p < 3000 \<and> is_prime p"
proof -
  from assms have "p \<in> set (primerange 2 3000)"
    unfolding PRIMES_def by (rule in_set_takeD)
  then show ?thesis by (simp only: primerange_member)
qed

lemma primerange_split:
  assumes "a \<le> b" and "b < c"
  shows "primerange a c = primerange a b @ primerange b c"
proof -
  have "[a..c - 1] = [a..b - 1] @ [b..c - 1]"
    using assms by (intro upto_split1) auto
  then show ?thesis by (simp add: primerange_def)
qed

text \<open>The primes below 2742, evaluated in pieces; there are 400 of them.\<close>

lemma primerange_2_252:
  "primerange 2 252 =
    [2, 3, 5, 7, 11, 13, 17, 19, 23, 29, 31, 37,
     41, 43, 47, 53, 59, 61, 67, 71, 73, 79, 83, 89,
     97, 101, 103, 107, 109, 113, 127, 131, 137, 139, 149, 151,
     157, 163, 167, 173, 179, 181, 191, 193, 197, 199, 211, 223,
     227, 229, 233, 239, 241, 251]"
  by code_simp

lemma primerange_252_502:
  "primerange 252 502 =
    [257, 263, 269, 271, 277, 281, 283, 293, 307, 311, 313, 317,
     331, 337, 347, 349, 353, 359, 367, 373, 379, 383, 389, 397,
     401, 409, 419, 421, 431, 433, 439, 443, 449, 457, 461, 463,
     467, 479, 487, 491, 499]"
  by code_simp

lemma primerange_502_752:
  "primerange 502 752 =
    [503, 509, 521, 523, 541, 547, 557, 563, 569, 571, 577, 587,
     593, 599, 601, 607, 613, 617, 619, 631, 641, 643, 647, 653,
     659, 661, 673, 677, 683, 691, 701, 709, 719, 727, 733, 739,
     743, 751]"
  by code_simp

lemma primerange_752_1002:
  "primerange 752 1002 =
    [757, 761, 769, 773, 787, 797, 809, 811, 821, 823, 827, 829,
     839, 853, 857, 859, 863, 877, 881, 883, 887, 907, 911, 919,
     929, 937, 941, 947, 953, 967, 971, 977, 983, 991, 997]"
  by code_simp

lemma primerange_1002_1252:
  "primerange 1002 1252 =
    [1009, 1013, 1019, 1021, 1031, 1033, 1039, 1049, 1051, 1061, 1063, 1069,
     1087, 1091, 1093, 1097, 1103, 1109, 1117, 1123, 1129, 1151, 1153, 1163,
     1171, 1181, 1187, 1193, 1201, 1213, 1217, 1223, 1229, 1231, 1237, 1249]"
  by code_simp

lemma primerange_1252_1502:
  "primerange 1252 1502 =
    [1259, 1277, 1279, 1283, 1289, 1291, 1297, 1301, 1303, 1307, 1319, 1321,
     1327, 1361, 1367, 1373, 1381, 1399, 1409, 1423, 1427, 1429, 1433, 1439,
     1447, 1451, 1453, 1459, 1471, 1481, 1483, 1487, 1489, 1493, 1499]"
  by code_simp

lemma primerange_1502_1752:
  "primerange 1502 1752 =
    [1511, 1523, 1531, 1543, 1549, 1553, 1559, 1567, 1571, 1579, 1583, 1597,
     1601, 1607, 1609, 1613, 1619, 1621, 1627, 1637, 1657, 1663, 1667, 1669,
     1693, 1697, 1699, 1709, 1721, 1723, 1733, 1741, 1747]"
  by code_simp

lemma primerange_1752_2002:
  "primerange 1752 2002 =
    [1753, 1759, 1777, 1783, 1787, 1789, 1801, 1811, 1823, 1831, 1847, 1861,
     1867, 1871, 1873, 1877, 1879, 1889, 1901, 1907, 1913, 1931, 1933, 1949,
     1951, 1973, 1979, 1987, 1993, 1997, 1999]"
  by code_simp

lemma primerange_2002_2252:
  "primerange 2002 2252 =
    [2003, 2011, 2017, 2027, 2029, 2039, 2053, 2063, 2069, 2081, 2083, 2087,
     2089, 2099, 2111, 2113, 2129, 2131, 2137, 2141, 2143, 2153, 2161, 2179,
     2203, 2207, 2213, 2221, 2237, 2239, 2243, 2251]"
  by code_simp

lemma primerange_2252_2502:
  "primerange 2252 2502 =
    [2267, 2269, 2273, 2281, 2287, 2293, 2297, 2309, 2311, 2333, 2339, 2341,
     2347, 2351, 2357, 2371, 2377, 2381, 2383, 2389, 2393, 2399, 2411, 2417,
     2423, 2437, 2441, 2447, 2459, 2467, 2473, 2477]"
  by code_simp

lemma primerange_2502_2742:
  "primerange 2502 2742 =
    [2503, 2521, 2531, 2539, 2543, 2549, 2551, 2557, 2579, 2591, 2593, 2609,
     2617, 2621, 2633, 2647, 2657, 2659, 2663, 2671, 2677, 2683, 2687, 2689,
     2693, 2699, 2707, 2711, 2713, 2719, 2729, 2731, 2741]"
  by code_simp

lemma primerange_2_2742:
  "primerange 2 2742 =
    [2, 3, 5, 7, 11, 13, 17, 19, 23, 29, 31, 37,
     41, 43, 47, 53, 59, 61, 67, 71, 73, 79, 83, 89,
     97, 101, 103, 107, 109, 113, 127, 131, 137, 139, 149, 151,
     157, 163, 167, 173, 179, 181, 191, 193, 197, 199, 211, 223,
     227, 229, 233, 239, 241, 251, 257, 263, 269, 271, 277, 281,
     283, 293, 307, 311, 313, 317, 331, 337, 347, 349, 353, 359,
     367, 373, 379, 383, 389, 397, 401, 409, 419, 421, 431, 433,
     439, 443, 449, 457, 461, 463, 467, 479, 487, 491, 499, 503,
     509, 521, 523, 541, 547, 557, 563, 569, 571, 577, 587, 593,
     599, 601, 607, 613, 617, 619, 631, 641, 643, 647, 653, 659,
     661, 673, 677, 683, 691, 701, 709, 719, 727, 733, 739, 743,
     751, 757, 761, 769, 773, 787, 797, 809, 811, 821, 823, 827,
     829, 839, 853, 857, 859, 863, 877, 881, 883, 887, 907, 911,
     919, 929, 937, 941, 947, 953, 967, 971, 977, 983, 991, 997,
     1009, 1013, 1019, 1021, 1031, 1033, 1039, 1049, 1051, 1061, 1063, 1069,
     1087, 1091, 1093, 1097, 1103, 1109, 1117, 1123, 1129, 1151, 1153, 1163,
     1171, 1181, 1187, 1193, 1201, 1213, 1217, 1223, 1229, 1231, 1237, 1249,
     1259, 1277, 1279, 1283, 1289, 1291, 1297, 1301, 1303, 1307, 1319, 1321,
     1327, 1361, 1367, 1373, 1381, 1399, 1409, 1423, 1427, 1429, 1433, 1439,
     1447, 1451, 1453, 1459, 1471, 1481, 1483, 1487, 1489, 1493, 1499, 1511,
     1523, 1531, 1543, 1549, 1553, 1559, 1567, 1571, 1579, 1583, 1597, 1601,
     1607, 1609, 1613, 1619, 1621, 1627, 1637, 1657, 1663, 1667, 1669, 1693,
     1697, 1699, 1709, 1721, 1723, 1733, 1741, 1747, 1753, 1759, 1777, 1783,
     1787, 1789, 1801, 1811, 1823, 1831, 1847, 1861, 1867, 1871, 1873, 1877,
     1879, 1889, 1901, 1907, 1913, 1931, 1933, 1949, 1951, 1973, 1979, 1987,
     1993, 1997, 1999, 2003, 2011, 2017, 2027, 2029, 2039, 2053, 2063, 2069,
     2081, 2083, 2087, 2089, 2099, 2111, 2113, 2129, 2131, 2137, 2141, 2143,
     2153, 2161, 2179, 2203, 2207, 2213, 2221, 2237, 2239, 2243, 2251, 2267,
     2269, 2273, 2281, 2287, 2293, 2297, 2309, 2311, 2333, 2339, 2341, 2347,
     2351, 2357, 2371, 2377, 2381, 2383, 2389, 2393, 2399, 2411, 2417, 2423,
     2437, 2441, 2447, 2459, 2467, 2473, 2477, 2503, 2521, 2531, 2539, 2543,
     2549, 2551, 2557, 2579, 2591, 2593, 2609, 2617, 2621, 2633, 2647, 2657,
     2659, 2663, 2671, 2677, 2683, 2687, 2689, 2693, 2699, 2707, 2711, 2713,
     2719, 2729, 2731, 2741]"
proof -
  have "primerange 2 2742 =
      primerange 2 252 @
      primerange 252 502 @
      primerange 502 752 @
      primerange 752 1002 @
      primerange 1002 1252 @
      primerange 1252 1502 @
      primerange 1502 1752 @
      primerange 1752 2002 @
      primerange 2002 2252 @
      primerange 2252 2502 @
      primerange 2502 2742"
    by (simp add: primerange_split [of 2 252 2742] primerange_split [of 252 502 2742] primerange_split [of 502 752 2742] primerange_split [of 752 1002 2742] primerange_split [of 1002 1252 2742] primerange_split [of 1252 1502 2742] primerange_split [of 1502 1752 2742] primerange_split [of 1752 2002 2742] primerange_split [of 2002 2252 2742] primerange_split [of 2252 2502 2742])
  then show ?thesis
    by (simp only: primerange_2_252 primerange_252_502 primerange_502_752 primerange_752_1002 primerange_1002_1252 primerange_1252_1502 primerange_1502_1752 primerange_1752_2002 primerange_2002_2252 primerange_2252_2502 primerange_2502_2742
        append_Cons append_Nil)
qed

lemma length_primerange_2_2742: "length (primerange 2 2742) = PRIMES_COUNT"
  unfolding primerange_2_2742 PRIMES_COUNT_def by simp

lemma PRIMES_eq: "PRIMES = primerange 2 2742"
proof -
  have "primerange 2 3000 = primerange 2 2742 @ primerange 2742 3000"
    by (rule primerange_split) simp_all
  then show ?thesis
    by (simp add: PRIMES_def length_primerange_2_2742)
qed

lemma length_PRIMES: "length PRIMES = PRIMES_COUNT"
  by (simp only: PRIMES_eq length_primerange_2_2742)

lemma PRIMES_le_2741:
  assumes "p \<in> set PRIMES"
  shows "p \<le> 2741"
proof -
  from assms have "p < 2742"
    by (simp only: PRIMES_eq primerange_member)
  then show ?thesis by simp
qed

lemma PRIMES_iff: "p \<in> set PRIMES \<longleftrightarrow> 2 \<le> p \<and> p \<le> 2741 \<and> is_prime p"
proof -
  have "p \<in> set PRIMES \<longleftrightarrow> 2 \<le> p \<and> p < 2742 \<and> is_prime p"
    by (simp only: PRIMES_eq primerange_member)
  then show ?thesis by auto
qed

lemma seven_in_PRIMES: "7 \<in> set PRIMES"
proof -
  have "is_prime 7" by code_simp
  then show ?thesis by (simp add: PRIMES_iff)
qed

lemma PRIMES_strictly_sorted: "sorted_wrt (<) PRIMES"
  unfolding PRIMES_def primerange_def
  by (intro sorted_wrt_take sorted_wrt_filter sorted_wrt_upto)

lemma PRIMES_nth_3: "PRIMES ! 3 = 7"
  by (simp add: PRIMES_eq primerange_2_2742)

lemma PRIMES_COUNT_pos: "0 < PRIMES_COUNT"
  by (simp add: PRIMES_COUNT_def)

section \<open>Trial division is primality\<close>

lemma trial_division_iff:
  "2 \<le> d \<Longrightarrow> trial_division n d \<longleftrightarrow> (\<forall>k. d \<le> k \<and> k * k \<le> n \<longrightarrow> \<not> k dvd n)"
proof (induction n d rule: trial_division.induct)
  case (1 n d)
  show ?case
  proof (cases "d * d \<le> n \<and> 0 < d")
    case False
    with "1.prems" have big: "n < d * d" by simp
    have "n < k * k" if "d \<le> k" for k
    proof -
      have "d * d \<le> k * k" using that "1.prems" by (intro mult_mono) auto
      with big show ?thesis by linarith
    qed
    then have "\<forall>k. d \<le> k \<and> k * k \<le> n \<longrightarrow> \<not> k dvd n"
      by (meson not_less)
    moreover have "trial_division n d"
      using False by (subst trial_division.simps) auto
    ultimately show ?thesis by simp
  next
    case True
    show ?thesis
    proof (cases "n mod d = 0")
      case zero: True
      then have "d dvd n" by (simp add: dvd_eq_mod_eq_0)
      moreover have "\<not> trial_division n d"
        using True zero by (subst trial_division.simps) simp
      ultimately show ?thesis using True by blast
    next
      case False
      then have nd: "\<not> d dvd n" by (simp add: dvd_eq_mod_eq_0)
      have "trial_division n d = trial_division n (d + 1)"
        using True False by (subst trial_division.simps) simp
      also have "\<dots> \<longleftrightarrow> (\<forall>k. d + 1 \<le> k \<and> k * k \<le> n \<longrightarrow> \<not> k dvd n)"
        using "1.IH" [OF True False] "1.prems" by simp
      also have "\<dots> \<longleftrightarrow> (\<forall>k. d \<le> k \<and> k * k \<le> n \<longrightarrow> \<not> k dvd n)"
      proof
        assume h: "\<forall>k. d + 1 \<le> k \<and> k * k \<le> n \<longrightarrow> \<not> k dvd n"
        show "\<forall>k. d \<le> k \<and> k * k \<le> n \<longrightarrow> \<not> k dvd n"
        proof (intro allI impI)
          fix k assume k: "d \<le> k \<and> k * k \<le> n"
          show "\<not> k dvd n"
          proof (cases "k = d")
            case True
            with nd show ?thesis by simp
          next
            case False
            with k have "d + 1 \<le> k" by simp
            with h k show ?thesis by blast
          qed
        qed
      next
        assume h: "\<forall>k. d \<le> k \<and> k * k \<le> n \<longrightarrow> \<not> k dvd n"
        show "\<forall>k. d + 1 \<le> k \<and> k * k \<le> n \<longrightarrow> \<not> k dvd n"
        proof (intro allI impI)
          fix k assume "d + 1 \<le> k \<and> k * k \<le> n"
          then have "d \<le> k \<and> k * k \<le> n" by simp
          with h show "\<not> k dvd n" by blast
        qed
      qed
      finally show ?thesis .
    qed
  qed
qed

lemma is_prime_iff:
  "is_prime n \<longleftrightarrow> 1 < n \<and> (\<forall>d. 0 < d \<and> d dvd n \<longrightarrow> d = 1 \<or> d = n)"
proof
  assume p: "is_prime n"
  then have n: "1 < n" and t: "\<forall>k. 2 \<le> k \<and> k * k \<le> n \<longrightarrow> \<not> k dvd n"
    using trial_division_iff [of 2 n] by (simp_all add: is_prime_def)
  have "d = 1 \<or> d = n" if d: "0 < d" "d dvd n" for d
  proof (rule ccontr)
    assume neg: "\<not> (d = 1 \<or> d = n)"
    from d obtain c where c: "n = d * c" by (auto simp: dvd_def)
    have "0 < d * c" using n c by simp
    then have cpos: "0 < c" using d(1) by (rule zero_less_mult_pos)
    have d2: "2 \<le> d" using d neg by simp
    have c2: "2 \<le> c"
    proof -
      have "c \<noteq> 1" using c neg by auto
      with cpos show ?thesis by simp
    qed
    have "c dvd n" using c by simp
    show False
    proof (cases "d \<le> c")
      case True
      then have "d * d \<le> d * c" using d by (intro mult_left_mono) auto
      with c t d2 d show False by auto
    next
      case False
      then have "c * c \<le> d * c" using cpos by (intro mult_right_mono) auto
      with c t c2 \<open>c dvd n\<close> show False by auto
    qed
  qed
  with n show "1 < n \<and> (\<forall>d. 0 < d \<and> d dvd n \<longrightarrow> d = 1 \<or> d = n)" by blast
next
  assume h: "1 < n \<and> (\<forall>d. 0 < d \<and> d dvd n \<longrightarrow> d = 1 \<or> d = n)"
  have "\<not> k dvd n" if k: "2 \<le> k" "k * k \<le> n" for k
  proof
    assume "k dvd n"
    moreover have "0 < k" "k \<noteq> 1" using k by simp_all
    ultimately have "k = n" using h by blast
    with k have "n * n \<le> n * 1" by simp
    moreover have "0 < n" using h by simp
    ultimately have "n \<le> 1" by (simp only: mult_le_cancel_left_pos)
    with h show False by simp
  qed
  then have "trial_division n 2"
    using trial_division_iff [of 2 n] by blast
  with h show "is_prime n" by (simp add: is_prime_def)
qed

section \<open>Fermat's little theorem and Euler's criterion\<close>

lemma is_prime_coprime:
  assumes "is_prime p" and "\<not> p dvd a"
  shows "coprime p a"
proof -
  have p1: "1 < p" and dv: "\<And>d. 0 < d \<Longrightarrow> d dvd p \<Longrightarrow> d = 1 \<or> d = p"
    using assms(1) by (auto simp: is_prime_iff)
  have "gcd p a dvd p" by simp
  moreover have "0 < gcd p a" using p1 by simp
  ultimately have "gcd p a = 1 \<or> gcd p a = p" using dv by blast
  moreover have "gcd p a \<noteq> p"
  proof
    assume "gcd p a = p"
    then have "p dvd a" by (metis gcd_dvd2)
    with assms(2) show False ..
  qed
  ultimately show ?thesis by (simp add: coprime_iff_gcd_eq_1)
qed

lemma is_prime_dvd_mult:
  assumes "is_prime p" and "p dvd a * b"
  shows "p dvd a \<or> p dvd b"
proof (cases "p dvd a")
  case True
  then show ?thesis ..
next
  case False
  with assms(1) have "coprime p a" by (rule is_prime_coprime)
  with assms(2) have "p dvd b" by (simp add: coprime_dvd_mult_right_iff)
  then show ?thesis ..
qed

lemma is_prime_dvd_binomial:
  assumes "is_prime p" and "0 < k" and "k < nat p"
  shows "p dvd int (nat p choose k)"
proof -
  define n where "n = nat p"
  have n: "int n = p" using assms(3) by (simp add: n_def)
  obtain j where j: "k = Suc j" using assms(2) by (cases k) auto
  have "Suc j * (n choose Suc j) = n * ((n - 1) choose j)"
    by (rule binomial_absorption)
  then have "int (k * (n choose k)) = int (n * ((n - 1) choose j))"
    using j by simp
  then have "int k * int (n choose k) = p * int ((n - 1) choose j)"
    using n by (simp only: of_nat_mult)
  then have d: "p dvd int k * int (n choose k)" by simp
  have "\<not> p dvd int k"
    using assms(2,3) by (intro zdvd_not_zless) auto
  with assms(1) have "coprime p (int k)" by (rule is_prime_coprime)
  with d show ?thesis by (simp add: coprime_dvd_mult_right_iff n_def)
qed

lemma fermat_step:
  assumes "is_prime p"
  shows "p dvd (a + 1) ^ nat p - a ^ nat p - 1"
proof -
  define n where "n = nat p"
  define f where "f = (\<lambda>k. int (n choose k) * a ^ k)"
  have n: "1 < n" using assms by (simp add: is_prime_iff n_def)
  have split: "{..n} = insert 0 (insert n {0<..<n})" using n by auto
  have "(a + 1) ^ n = (\<Sum>k\<le>n. of_nat (n choose k) * a ^ k * 1 ^ (n - k))"
    by (rule binomial_ring)
  also have "\<dots> = sum f {..n}" by (simp add: f_def)
  also have "\<dots> = f 0 + (f n + sum f {0<..<n})"
    unfolding split using n by simp
  also have "\<dots> = 1 + a ^ n + sum f {0<..<n}" by (simp add: f_def)
  finally have eq: "(a + 1) ^ n - a ^ n - 1 = sum f {0<..<n}" by simp
  have "p dvd sum f {0<..<n}"
  proof (rule dvd_sum)
    fix k assume "k \<in> {0<..<n}"
    then have "p dvd int (n choose k)"
      using is_prime_dvd_binomial [OF assms, of k] by (simp add: n_def)
    then show "p dvd f k" by (simp add: f_def)
  qed
  then have "p dvd (a + 1) ^ n - a ^ n - 1" by (simp only: eq)
  then show ?thesis by (simp only: n_def)
qed

lemma fermat_nat:
  assumes "is_prime p"
  shows "p dvd int a ^ nat p - int a"
proof (induction a)
  case 0
  have "nat p \<noteq> 0" using assms by (simp add: is_prime_iff)
  then have "int 0 ^ nat p - int 0 = 0" by (simp add: power_0_left)
  then show ?case by (simp only: dvd_0_right)
next
  case (Suc a)
  have "int (Suc a) ^ nat p - int (Suc a)
      = ((int a + 1) ^ nat p - int a ^ nat p - 1) + (int a ^ nat p - int a)"
    by (simp add: add.commute)
  moreover have "p dvd (int a + 1) ^ nat p - int a ^ nat p - 1"
    using assms by (rule fermat_step)
  ultimately show ?case using Suc.IH by (simp only: dvd_add)
qed

lemma fermat_int:
  assumes "is_prime p"
  shows "p dvd a ^ nat p - a"
proof -
  define r where "r = a mod p"
  have p: "0 < p" using assms by (simp add: is_prime_iff)
  then have r: "0 \<le> r" by (simp add: r_def)
  have "p dvd int (nat r) ^ nat p - int (nat r)"
    using assms by (rule fermat_nat)
  then have "p dvd r ^ nat p - r" using r by simp
  then have "r ^ nat p mod p = r mod p" by (simp only: mod_eq_dvd_iff)
  moreover have "r ^ nat p mod p = a ^ nat p mod p" by (simp add: r_def power_mod)
  moreover have "r mod p = a mod p" by (simp add: r_def)
  ultimately have "a ^ nat p mod p = a mod p" by simp
  then show ?thesis by (simp only: mod_eq_dvd_iff)
qed

lemma fermat_little:
  assumes "is_prime p" and "\<not> p dvd a"
  shows "a ^ (nat p - 1) mod p = 1"
proof -
  have p: "1 < p" using assms(1) by (simp add: is_prime_iff)
  then have "nat p = Suc (nat p - 1)" by simp
  then have "a ^ nat p = a * a ^ (nat p - 1)" by (metis power_Suc)
  then have "a ^ nat p - a = a * (a ^ (nat p - 1) - 1)" by (simp add: algebra_simps)
  then have "p dvd a * (a ^ (nat p - 1) - 1)" using fermat_int [OF assms(1), of a] by simp
  moreover have "coprime p a" using assms by (rule is_prime_coprime)
  ultimately have "p dvd a ^ (nat p - 1) - 1" by (simp add: coprime_dvd_mult_right_iff)
  then have "a ^ (nat p - 1) mod p = 1 mod p" by (simp only: mod_eq_dvd_iff)
  with p show ?thesis by simp
qed

lemma euler_criterion_values:
  assumes "is_prime p" and "\<not> p dvd a"
  shows "a ^ nat ((p - 1) div 2) mod p = 1 \<or> a ^ nat ((p - 1) div 2) mod p = p - 1"
proof (cases "p = 2")
  case True
  then show ?thesis by simp
next
  case False
  have p: "1 < p" and dv: "\<And>d. 0 < d \<Longrightarrow> d dvd p \<Longrightarrow> d = 1 \<or> d = p"
    using assms(1) by (auto simp: is_prime_iff)
  have odd: "\<not> 2 dvd p" using dv [of 2] False by auto
  define h where "h = nat ((p - 1) div 2)"
  define y where "y = a ^ h"
  have "2 * ((p - 1) div 2) = p - 1" using odd by presburger
  then have "int (2 * h) = int (nat p - 1)" using p by (simp add: h_def)
  then have h2: "2 * h = nat p - 1" by (simp only: of_nat_eq_iff)
  have "y * y = a ^ (2 * h)" by (simp add: y_def power_mult power2_eq_square mult.commute)
  then have "y * y mod p = 1" using fermat_little [OF assms] by (simp only: h2)
  then have "y * y mod p = 1 mod p" using p by simp
  then have "p dvd y * y - 1" by (simp only: mod_eq_dvd_iff)
  moreover have "y * y - 1 = (y - 1) * (y + 1)" by (simp add: algebra_simps)
  ultimately have "p dvd (y - 1) * (y + 1)" by simp
  with assms(1) have "p dvd y - 1 \<or> p dvd y + 1" by (rule is_prime_dvd_mult)
  then show ?thesis
  proof
    assume "p dvd y - 1"
    then have "y mod p = 1 mod p" by (simp only: mod_eq_dvd_iff)
    with p show ?thesis by (simp add: y_def h_def)
  next
    assume "p dvd y + 1"
    then have "p dvd y - (- 1)" by simp
    then have "y mod p = - 1 mod p" by (simp only: mod_eq_dvd_iff)
    with p show ?thesis by (simp add: y_def h_def zmod_minus1)
  qed
qed

section \<open>The glide loop\<close>

lemma glide_loop_exit: "\<not> (cur > 1 \<and> steps < 300) \<Longrightarrow> glide_loop Np cur steps = steps"
  by (subst glide_loop.simps) auto

lemma glide_loop_break:
  "cur > 1 \<Longrightarrow> steps < 300 \<Longrightarrow>
   (if cur mod 2 = 0 then drop_bit 1 cur else 3 * cur + 1) < Np \<Longrightarrow>
     glide_loop Np cur steps = steps + 1"
  by (subst glide_loop.simps) (simp add: Let_def)

lemma glide_loop_continue:
  "cur > 1 \<Longrightarrow> steps < 300 \<Longrightarrow>
   \<not> (if cur mod 2 = 0 then drop_bit 1 cur else 3 * cur + 1) < Np \<Longrightarrow>
     glide_loop Np cur steps =
       glide_loop Np (if cur mod 2 = 0 then drop_bit 1 cur else 3 * cur + 1) (steps + 1)"
  by (subst glide_loop.simps) (simp add: Let_def)

lemma glide_loop_bounds:
  "0 \<le> steps \<Longrightarrow> steps \<le> 300 \<Longrightarrow>
     steps \<le> glide_loop Np cur steps \<and> glide_loop Np cur steps \<le> 300"
proof (induction Np cur steps rule: glide_loop.induct)
  case (1 Np cur steps)
  show ?case
  proof (cases "cur > 1 \<and> steps < 300")
    case False
    then have "glide_loop Np cur steps = steps" by (rule glide_loop_exit)
    with "1.prems" show ?thesis by simp
  next
    case True
    define cur' where "cur' = (if cur mod 2 = 0 then drop_bit 1 cur else 3 * cur + 1)"
    show ?thesis
    proof (cases "cur' < Np")
      case glided: True
      then have "glide_loop Np cur steps = steps + 1"
        using True glide_loop_break [of cur steps Np] by (simp add: cur'_def)
      with True show ?thesis by simp
    next
      case False
      have "steps + 1 \<le> glide_loop Np cur' (steps + 1) \<and> glide_loop Np cur' (steps + 1) \<le> 300"
        using "1.IH" [OF True cur'_def refl False] True "1.prems" by simp
      moreover have "glide_loop Np cur steps = glide_loop Np cur' (steps + 1)"
        using True False glide_loop_continue [of cur steps Np] by (simp add: cur'_def)
      ultimately show ?thesis by simp
    qed
  qed
qed

lemma glide_bounds: "0 \<le> glide_value Np \<and> glide_value Np \<le> 300"
  using glide_loop_bounds [of 0 Np Np] by (simp add: glide_value_def)

lemma glide_zero: "Np \<le> 1 \<Longrightarrow> glide_value Np = 0"
  by (simp add: glide_value_def glide_loop_exit)

lemma glide_even: "1 < Np \<Longrightarrow> Np mod 2 = 0 \<Longrightarrow> glide_value Np = 1"
  unfolding glide_value_def by (subst glide_loop_break) (simp_all add: drop_bit_eq_div)

lemma glide_3: "glide_value 3 = 6"
  by code_simp

lemma glide_loop_27: "glide_loop 27 27 0 = 96"
  by code_simp

lemma glide_loop_capped: "glide_loop 1126015 1126015 0 = 300"
  by code_simp

section \<open>The glide loop against its description\<close>

lemma glide_loop_least_aux:
  "cur = (collatz_step ^^ k) Np \<Longrightarrow> steps = int k \<Longrightarrow> k \<le> 300 \<Longrightarrow>
   (\<forall>j<k. \<not> glide_stop Np j) \<Longrightarrow> (0 < k \<longrightarrow> Np \<le> cur) \<Longrightarrow>
     glide_loop Np cur steps = int (LEAST j. glide_stop Np j)"
proof (induction Np cur steps arbitrary: k rule: glide_loop.induct)
  case (1 Np cur steps)
  note cur = "1.prems"(1) and steps = "1.prems"(2) and k = "1.prems"(3)
    and before = "1.prems"(4) and above = "1.prems"(5)
  show ?case
  proof (cases "cur > 1 \<and> steps < 300")
    case False
    then have "glide_stop Np k"
      using cur steps k by (auto simp: glide_stop_def)
    with before have "(LEAST j. glide_stop Np j) = k"
      by (intro Least_equality) (auto simp: not_less [symmetric])
    moreover have "glide_loop Np cur steps = steps"
      using False by (rule glide_loop_exit)
    ultimately show ?thesis using steps by simp
  next
    case True
    define cur' where "cur' = (if cur mod 2 = 0 then drop_bit 1 cur else 3 * cur + 1)"
    have "cur' = collatz_step cur"
      by (simp add: cur'_def collatz_step_def drop_bit_eq_div)
    then have cur'_eq: "cur' = (collatz_step ^^ Suc k) Np"
      by (simp add: cur)
    have nk: "\<not> glide_stop Np k"
      using True cur steps above by (auto simp: glide_stop_def)
    have before': "\<forall>j<Suc k. \<not> glide_stop Np j"
      using before nk by (auto simp: less_Suc_eq)
    have k': "Suc k \<le> 300" using True steps by simp
    show ?thesis
    proof (cases "cur' < Np")
      case glided: True
      then have "glide_stop Np (Suc k)"
        using cur'_eq by (simp add: glide_stop_def)
      with before' have "(LEAST j. glide_stop Np j) = Suc k"
        by (intro Least_equality) (auto simp: not_less [symmetric])
      moreover have "glide_loop Np cur steps = steps + 1"
        using True glided glide_loop_break [of cur steps Np] by (simp add: cur'_def)
      ultimately show ?thesis using steps by simp
    next
      case False
      have "glide_loop Np cur steps = glide_loop Np cur' (steps + 1)"
        using True False glide_loop_continue [of cur steps Np] by (simp add: cur'_def)
      also have "\<dots> = int (LEAST j. glide_stop Np j)"
      proof (rule "1.IH" [OF True cur'_def refl False cur'_eq _ k' before'])
        show "steps + 1 = int (Suc k)" using steps by simp
        show "0 < Suc k \<longrightarrow> Np \<le> cur'" using False by simp
      qed
      finally show ?thesis .
    qed
  qed
qed

lemma glide_loop_least: "glide_loop Np Np 0 = int (LEAST k. glide_stop Np k)"
  by (rule glide_loop_least_aux [of Np 0]) simp_all

section \<open>Line 59 does not overflow\<close>

lemma cubic_bounds:
  fixes A B x :: int
  assumes A: "\<bar>A\<bar> \<le> 10 ^ 12" and B: "\<bar>B\<bar> \<le> 10 ^ 12" and x: "0 \<le> x" "x \<le> 2741"
  shows "in_int64 (x * x) \<and> in_int64 (x * x * x) \<and> in_int64 (A * x)
       \<and> in_int64 (x * x * x + A * x) \<and> in_int64 (x * x * x + A * x + B)"
proof -
  define q where "q = x * x"
  define c where "c = q * x"
  define l where "l = A * x"
  have q0: "0 \<le> q" unfolding q_def using x by simp
  have "x * x \<le> 2741 * 2741" using x by (intro mult_mono) auto
  then have q1: "q \<le> 7513081" by (simp add: q_def)
  have c0: "0 \<le> c" unfolding c_def using q0 x by simp
  have "q * x \<le> 7513081 * 2741" using q0 q1 x by (intro mult_mono) auto
  then have c1: "c \<le> 20593355021" by (simp add: c_def)
  note q = q0 q1 and c = c0 c1
  have "\<bar>l\<bar> = \<bar>A\<bar> * x" using x by (simp add: l_def abs_mult)
  also have "\<dots> \<le> 10 ^ 12 * 2741" using A x by (intro mult_mono) auto
  finally have l: "\<bar>l\<bar> \<le> 10 ^ 12 * 2741" .
  have lb: "- 2741000000000000 \<le> l" "l \<le> 2741000000000000"
    using l by (simp_all add: abs_le_iff)
  have Bb: "- 1000000000000 \<le> B" "B \<le> 1000000000000"
    using B by (simp_all add: abs_le_iff)
  have "in_int64 q \<and> in_int64 c \<and> in_int64 l \<and> in_int64 (c + l) \<and> in_int64 (c + l + B)"
    using q c lb Bb unfolding in_int64_def by simp
  then show ?thesis
    by (simp only: q_def c_def l_def)
qed

text \<open>
  Claim C5. For \<open>|A| \<le> 10^12\<close>, \<open>|B| \<le> 10^12\<close>, every prime \<open>p\<close> of the table (all are at
  most 2741) and every residue \<open>x\<close> of \<open>[0, p)\<close>, the value \<open>fx\<close> that the program computes
  in 64-bit signed arithmetic as \<open>(x*x*x + A*x + B) % p\<close> is the exact
  \<open>(x^3 + A*x + B) mod p\<close>: every intermediate value of the unreduced cubic is
  representable, although neither \<open>A\<close> nor \<open>B\<close> is reduced modulo \<open>p\<close> first.
\<close>

theorem fx_int64_exact:
  assumes "\<bar>A\<bar> \<le> 10 ^ 12" and "\<bar>B\<bar> \<le> 10 ^ 12" and "p \<in> set PRIMES"
    and "0 \<le> x" and "x < p"
  shows "p \<le> 2741
       \<and> in_int64 (x * x) \<and> in_int64 (x * x * x) \<and> in_int64 (A * x)
       \<and> in_int64 (x * x * x + A * x) \<and> in_int64 (x * x * x + A * x + B)
       \<and> (\<exists>fx. fx_int64 (word_of_int x) (word_of_int A) (word_of_int B) (word_of_int p) = Inr fx
             \<and> sint fx = (x ^ 3 + A * x + B) mod p)"
proof -
  have p: "2 \<le> p" "p \<le> 2741"
    using assms(3) PRIMES_member [of p] PRIMES_le_2741 [of p] by simp_all
  have x: "0 \<le> x" "x \<le> 2741" using assms(4,5) p by simp_all
  note cb = cubic_bounds [OF assms(1,2) x]
  have b5: "in_int64 (x * x * x + A * x + B)" using cb by simp
  have bp: "in_int64 p" using p by (simp add: in_int64_def)
  define m where "m = (x * x * x + A * x + B) mod p"
  have m: "0 \<le> m" "m < p" using p by (simp_all add: m_def)
  have bm: "in_int64 m" using m p by (simp add: in_int64_def)
  have sp: "sint (word_of_int p :: int64) = p" using bp by (rule sint_word_of_int64)
  have nz: "(word_of_int p :: int64) \<noteq> 0"
  proof
    assume "(word_of_int p :: int64) = 0"
    then have "sint (word_of_int p :: int64) = 0" by simp
    with sp p show False by simp
  qed
  have w: "(word_of_int x * word_of_int x * word_of_int x + word_of_int A * word_of_int x
      + word_of_int B :: int64) = word_of_int (x * x * x + A * x + B)"
    by simp
  have sc: "sint (word_of_int (x * x * x + A * x + B) :: int64) = x * x * x + A * x + B"
    using b5 by (rule sint_word_of_int64)
  have fx: "fx_int64 (word_of_int x) (word_of_int A) (word_of_int B) (word_of_int p)
      = Inr (word_of_int m)"
    unfolding fx_int64_def w sc sp m_def using nz by simp
  have "sint (word_of_int m :: int64) = (x ^ 3 + A * x + B) mod p"
    using sint_word_of_int64 [OF bm] by (simp add: m_def power3_eq_cube)
  with fx p cb show ?thesis by simp
qed

theorem fx_int64_exact_witness:
  "\<bar>10 ^ 12 :: int\<bar> \<le> 10 ^ 12 \<and> \<bar>- (10 ^ 12) :: int\<bar> \<le> 10 ^ 12 \<and> 7 \<in> set PRIMES
   \<and> (0::int) \<le> 6 \<and> (6::int) < 7
   \<and> in_int64 (6 * 6 * 6 + 10 ^ 12 * 6 + - (10 ^ 12))
   \<and> (\<exists>fx. fx_int64 (word_of_int 6) (word_of_int (10 ^ 12)) (word_of_int (- (10 ^ 12)))
              (word_of_int 7) = Inr fx
           \<and> sint fx = (6 ^ 3 + 10 ^ 12 * 6 + - (10 ^ 12)) mod 7)"
proof -
  have h1: "\<bar>10 ^ 12 :: int\<bar> \<le> 10 ^ 12" and h2: "\<bar>- (10 ^ 12) :: int\<bar> \<le> 10 ^ 12"
    and h4: "(0::int) \<le> 6" and h5: "(6::int) < 7" by simp_all
  from fx_int64_exact [OF h1 h2 seven_in_PRIMES h4 h5] h1 h2 seven_in_PRIMES
  show ?thesis by simp
qed

section \<open>The Legendre sum\<close>

lemma PRIMES_small:
  assumes "p \<in> set PRIMES"
  shows "1 < p \<and> (p - 1) * (p - 1) < 2 ^ 63"
proof -
  have p: "2 \<le> p" "p < 3000" using PRIMES_member [OF assms] by simp_all
  then have "(p - 1) * (p - 1) \<le> 2999 * 2999" by (intro mult_mono) auto
  with p show ?thesis by simp
qed

lemma int_interval_first: "x < p \<Longrightarrow> {x..<p} = insert x {x + 1..<p::int}"
  by auto

lemma int64_residue_bounds:
  assumes "0 < p"
  shows "0 \<le> int64_residue A B p x \<and> int64_residue A B p x < p"
  using assms by (simp add: int64_residue_def)

lemma fx_int64_value:
  assumes "1 < p" and "in_int64 p"
  shows "fx_int64 (word_of_int x) (word_of_int a) (word_of_int b) (word_of_int p)
       = Inr (word_of_int (int64_residue a b p x))
     \<and> sint (word_of_int (int64_residue a b p x) :: int64) = int64_residue a b p x"
proof -
  have sp: "sint (word_of_int p :: int64) = p"
    using assms(2) by (rule sint_word_of_int64)
  have nz: "(word_of_int p :: int64) \<noteq> 0"
  proof
    assume "(word_of_int p :: int64) = 0"
    then have "sint (word_of_int p :: int64) = 0" by simp
    with sp assms(1) show False by simp
  qed
  have w: "(word_of_int x * word_of_int x * word_of_int x + word_of_int a * word_of_int x
      + word_of_int b :: int64) = word_of_int (x ^ 3 + a * x + b)"
    by (simp add: power3_eq_cube)
  have fx: "fx_int64 (word_of_int x) (word_of_int a) (word_of_int b) (word_of_int p)
       = Inr (word_of_int (int64_residue a b p x))"
    unfolding fx_int64_def w sp using nz by (simp add: int64_residue_def wrap64_def)
  have r: "0 \<le> int64_residue a b p x" "int64_residue a b p x < p"
    using int64_residue_bounds [of p a b x] assms(1) by simp_all
  then have "in_int64 (int64_residue a b p x)"
    using assms(2) by (simp add: in_int64_def)
  then have "sint (word_of_int (int64_residue a b p x) :: int64) = int64_residue a b p x"
    by (rule sint_word_of_int64)
  with fx show ?thesis by simp
qed

lemma legendre_val_eq:
  assumes "1 < p" and "(p - 1) * (p - 1) < 2 ^ 63"
  shows "legendre_val a b p x = Inr (legendre_remap_int64 a b p x)"
proof -
  have i: "in_int64 p" using assms by (rule small_modulus_int64)
  have e: "0 \<le> (p - 1) div 2" using assms(1) by simp
  note fx = fx_int64_value [OF assms(1) i, of x a b]
  show ?thesis
    using power_mod_value [OF e assms] fx
    by (simp add: legendre_val_def legendre_remap_int64_def Let_def)
qed

lemma legendre_remap_int64_bounds:
  assumes "1 < p"
  shows "- 1 \<le> legendre_remap_int64 A B p x \<and> legendre_remap_int64 A B p x < p"
proof -
  define fx where "fx = int64_residue A B p x"
  define v where "v = fx ^ nat ((p - 1) div 2) mod p"
  have pos: "0 < p" using assms by simp
  have v: "0 \<le> v" "v < p"
    using pos by (simp_all add: v_def)
  have r: "legendre_remap_int64 A B p x = (if fx = 0 then 0 else if v = p - 1 then - 1 else v)"
    by (simp add: legendre_remap_int64_def fx_def v_def)
  show ?thesis
    unfolding r using v assms by (cases "fx = 0"; cases "v = p - 1"; simp)
qed

lemma ls_sum_loop_eq:
  "1 < p \<Longrightarrow> (p - 1) * (p - 1) < 2 ^ 63 \<Longrightarrow>
     ls_sum_loop a b p x ls_sum = Inr (ls_sum + (\<Sum>k = x..<p. legendre_remap_int64 a b p k))"
proof (induction a b p x ls_sum rule: ls_sum_loop.induct)
  case (1 a b p x ls_sum)
  show ?case
  proof (cases "x < p")
    case False
    then show ?thesis
      by (subst ls_sum_loop.simps) simp
  next
    case True
    have v: "legendre_val a b p x = Inr (legendre_remap_int64 a b p x)"
      using "1.prems" by (rule legendre_val_eq)
    have "ls_sum_loop a b p x ls_sum =
        ls_sum_loop a b p (x + 1) (ls_sum + legendre_remap_int64 a b p x)"
      using True by (subst ls_sum_loop.simps) (simp add: v)
    also have "\<dots> = Inr (ls_sum + legendre_remap_int64 a b p x
        + (\<Sum>k = x + 1..<p. legendre_remap_int64 a b p k))"
      using "1.IH" [OF True v "1.prems"] .
    also have "ls_sum + legendre_remap_int64 a b p x
          + (\<Sum>k = x + 1..<p. legendre_remap_int64 a b p k)
        = ls_sum + (\<Sum>k = x..<p. legendre_remap_int64 a b p k)"
      by (simp add: int_interval_first [OF True])
    finally show ?thesis .
  qed
qed

lemma ls_sum_value:
  "1 < p \<Longrightarrow> (p - 1) * (p - 1) < 2 ^ 63 \<Longrightarrow>
     ls_sum_loop a b p 0 0 = Inr (- local_trace_int64 a b p)"
  by (simp add: ls_sum_loop_eq local_trace_int64_def)

lemma local_trace_int64_le:
  assumes "1 < p"
  shows "local_trace_int64 A B p \<le> p"
proof -
  have "of_nat (card {0..<p}) * (- 1) \<le> (\<Sum>x = 0..<p. legendre_remap_int64 A B p x)"
    by (rule sum_bounded_below) (use assms legendre_remap_int64_bounds in auto)
  then show ?thesis
    using assms by (simp add: local_trace_int64_def)
qed

lemma int64_residue_exact:
  assumes "\<bar>A\<bar> \<le> 10 ^ 12" and "\<bar>B\<bar> \<le> 10 ^ 12" and "0 \<le> x" and "x \<le> 2741"
  shows "int64_residue A B p x = (x ^ 3 + A * x + B) mod p"
proof -
  have "in_int64 (x * x * x + A * x + B)"
    using cubic_bounds [OF assms] by simp
  then have "wrap64 (x ^ 3 + A * x + B) = x ^ 3 + A * x + B"
    using wrap64_id [of "x * x * x + A * x + B"] by (simp add: power3_eq_cube)
  then show ?thesis by (simp add: int64_residue_def)
qed

lemma local_trace_int64_exact:
  assumes "\<bar>A\<bar> \<le> 10 ^ 12" and "\<bar>B\<bar> \<le> 10 ^ 12" and "p \<le> 2741"
  shows "local_trace_int64 A B p = local_trace A B p"
proof -
  have "legendre_remap_int64 A B p x = legendre_remap A B p x" if "x \<in> {0..<p}" for x
  proof -
    from that assms(3) have "0 \<le> x" "x \<le> 2741" by simp_all
    then have "int64_residue A B p x = (x ^ 3 + A * x + B) mod p"
      using assms(1,2) by (intro int64_residue_exact)
    then show ?thesis
      by (simp add: legendre_remap_int64_def legendre_remap_def)
  qed
  then show ?thesis
    by (simp add: local_trace_int64_def local_trace_def)
qed

section \<open>The loop over the primes\<close>

lemma Max_insert_max:
  fixes a b :: int
  assumes "finite S"
  shows "Max (insert (max a b) S) = Max (insert a (insert b S))"
proof (cases "S = {}")
  case True
  then show ?thesis by (simp add: max.commute)
next
  case False
  with assms show ?thesis by (simp add: max.assoc)
qed

lemma foldl_max_Max:
  fixes f :: "nat \<Rightarrow> int"
  shows "foldl (\<lambda>m j. max m (f j)) g js = Max (insert g (f ` set js))"
proof (induction js arbitrary: g)
  case Nil
  show ?case by simp
next
  case (Cons j js)
  have "foldl (\<lambda>m j. max m (f j)) g (j # js) = Max (insert (max g (f j)) (f ` set js))"
    using Cons.IH [of "max g (f j)"] by simp
  also have "\<dots> = Max (insert g (insert (f j) (f ` set js)))"
    by (rule Max_insert_max) simp
  finally show ?case by simp
qed

lemma prime_step_eq:
  assumes i: "i < PRIMES_COUNT"
  shows "prime_step ops a b i bsd_score max_glide =
     Inr (fadd ops bsd_score (score_term ops a b i),
          max max_glide (glide_value (group_order a b (PRIMES ! i))))"
proof -
  note L = length_PRIMES
  define p where "p = PRIMES ! i"
  have "p \<in> set PRIMES" using L i by (simp add: p_def)
  then have p: "1 < p" "(p - 1) * (p - 1) < 2 ^ 63" using PRIMES_small [of p] by simp_all
  have g1: "getitem PRIMES i = Inr p"
    using L i by (simp add: getitem_def p_def)
  have g2: "getitem (LOGS2 ops) i = Inr (flog2 ops (float_of_int ops p))"
    using L i by (simp add: getitem_def LOGS2_def p_def)
  have ls: "ls_sum_loop a b p 0 0 = Inr (- local_trace_int64 a b p)"
    using p by (rule ls_sum_value)
  have m: "(if s > max_glide then s else max_glide) = max max_glide s" for s :: int
    by (simp add: max_def)
  show ?thesis
    using p(1)
    by (simp add: prime_step_def g1 g2 ls Let_def m score_term_def glide_value_def group_order_def
        p_def [symmetric])
qed

lemma analyze_loop_eq:
  "i \<le> PRIMES_COUNT \<Longrightarrow> analyze_loop ops a b i bsd_score max_glide =
     Inr (foldl (\<lambda>total j. fadd ops total (score_term ops a b j)) bsd_score [i..<PRIMES_COUNT],
          foldl (\<lambda>m j. max m (glide_value (group_order a b (PRIMES ! j)))) max_glide
            [i..<PRIMES_COUNT])"
proof (induction ops a b i bsd_score max_glide rule: analyze_loop.induct)
  case (1 ops a b i bsd_score max_glide)
  show ?case
  proof (cases "i < PRIMES_COUNT")
    case False
    then show ?thesis
      by (subst analyze_loop.simps) simp
  next
    case True
    define s' where "s' = fadd ops bsd_score (score_term ops a b i)"
    define g' where "g' = max max_glide (glide_value (group_order a b (PRIMES ! i)))"
    have st: "prime_step ops a b i bsd_score max_glide = Inr (s', g')"
      using prime_step_eq [OF True] by (simp add: s'_def g'_def)
    have "analyze_loop ops a b i bsd_score max_glide = analyze_loop ops a b (i + 1) s' g'"
      using True by (subst analyze_loop.simps) (simp add: st)
    also have "\<dots> =
       Inr (foldl (\<lambda>total j. fadd ops total (score_term ops a b j)) s' [i + 1..<PRIMES_COUNT],
            foldl (\<lambda>m j. max m (glide_value (group_order a b (PRIMES ! j)))) g'
              [i + 1..<PRIMES_COUNT])"
      using "1.IH" [OF True st refl] True by simp
    finally show ?thesis
      using True by (simp add: upt_conv_Cons s'_def g'_def)
  qed
qed

lemma analyze_physics_eq:
  "analyze_physics ops a b = Inr (analytic_score ops a b, dynamic_resistance a b)"
proof -
  note L = length_PRIMES
  let ?g = "\<lambda>p. glide_value (group_order a b p)"
  let ?f = "\<lambda>j. ?g (PRIMES ! j)"
  let ?S = "?g ` set PRIMES"
  have "set PRIMES = (\<lambda>j. PRIMES ! j) ` {0..<PRIMES_COUNT}"
    unfolding length_PRIMES [symmetric] by (rule nth_image [of "length PRIMES" PRIMES, simplified, symmetric])
  then have img: "?f ` set [0..<PRIMES_COUNT] = ?S"
    by (simp only: set_upt image_image)
  have "PRIMES \<noteq> []" using L PRIMES_COUNT_pos by auto
  then have ne: "?S \<noteq> {}" by simp
  have fin: "finite ?S" by simp
  have "Max ?S \<in> ?S" using fin ne by (rule Max_in)
  then have "0 \<le> Max ?S" using glide_bounds by auto
  then have "Max (insert 0 ?S) = Max ?S"
    using ne fin by (simp add: max_def)
  then have "foldl (\<lambda>m j. max m (?f j)) 0 [0..<PRIMES_COUNT] = dynamic_resistance a b"
    unfolding foldl_max_Max img dynamic_resistance_def .
  then show ?thesis
    using analyze_loop_eq [of 0 ops a b "fzero ops" 0]
    by (simp add: analyze_physics_def analytic_score_def)
qed

section \<open>The claims about \<open>analyze_physics\<close>\<close>

lemma legendre_remap_power_mod:
  assumes "1 < p" and "(p - 1) * (p - 1) < 2 ^ 63"
  shows "\<exists>v. power_mod (int64_residue A B p x) ((p - 1) div 2) p = Inr v
       \<and> legendre_remap_int64 A B p x =
           (if int64_residue A B p x = 0 then 0 else if v = p - 1 then - 1 else v)"
proof -
  have e: "0 \<le> (p - 1) div 2" using assms by simp
  show ?thesis
    using power_mod_value [OF e assms] by (simp add: legendre_remap_int64_def Let_def)
qed

lemma interval_0_7: "{0..<7::int} = {0, 1, 2, 3, 4, 5, 6}"
  by auto

text \<open>
  Claim C1, as stated, fails where line 59 wraps around: for \<open>A = 2^62\<close>, \<open>B = 1\<close> and the
  table's prime 7, the loop returns \<open>ls_sum = 1\<close>, while the sum of the remapped values of
  the exact residues \<open>(x^3 + A*x + B) mod 7\<close> is \<open>-3\<close>, that is \<open>ap = 3\<close>.
\<close>

theorem local_trace_wraps:
  "PRIMES ! 3 = 7
   \<and> ls_sum_loop (2 ^ 62) 1 7 0 0 = Inr 1
   \<and> - (legendre_remap (2 ^ 62) 1 7 0 + legendre_remap (2 ^ 62) 1 7 1
        + legendre_remap (2 ^ 62) 1 7 2 + legendre_remap (2 ^ 62) 1 7 3
        + legendre_remap (2 ^ 62) 1 7 4 + legendre_remap (2 ^ 62) 1 7 5
        + legendre_remap (2 ^ 62) 1 7 6) = 3"
proof -
  define A :: int where "A = 2 ^ 62"
  have s: "(1::int) < 7" "((7::int) - 1) * (7 - 1) < 2 ^ 63" by simp_all
  have v: "legendre_remap_int64 A 1 7 0 = 1" "legendre_remap_int64 A 1 7 1 = - 1"
    "legendre_remap_int64 A 1 7 2 = 1" "legendre_remap_int64 A 1 7 3 = - 1"
    "legendre_remap_int64 A 1 7 4 = 1" "legendre_remap_int64 A 1 7 5 = 1"
    "legendre_remap_int64 A 1 7 6 = - 1"
    by (simp_all add: A_def legendre_remap_int64_def int64_residue_def wrap64_eq)
  have 1: "ls_sum_loop A 1 7 0 0 = Inr 1"
    by (simp add: ls_sum_loop_eq [OF s] interval_0_7 v)
  have e: "legendre_remap A 1 7 0 = 1" "legendre_remap A 1 7 1 = - 1"
    "legendre_remap A 1 7 2 = - 1" "legendre_remap A 1 7 3 = - 1"
    "legendre_remap A 1 7 4 = 1" "legendre_remap A 1 7 5 = - 1"
    "legendre_remap A 1 7 6 = - 1"
    by (simp_all add: A_def legendre_remap_def)
  have "PRIMES ! 3 = 7
   \<and> ls_sum_loop A 1 7 0 0 = Inr 1
   \<and> - (legendre_remap A 1 7 0 + legendre_remap A 1 7 1
        + legendre_remap A 1 7 2 + legendre_remap A 1 7 3
        + legendre_remap A 1 7 4 + legendre_remap A 1 7 5
        + legendre_remap A 1 7 6) = 3"
    using 1 by (simp add: e PRIMES_nth_3)
  then show ?thesis unfolding A_def .
qed

text \<open>
  Claim C1, amended. For every pair of int64 integers \<open>(A, B)\<close> the analytic score
  returned by \<open>analyze_physics\<close> is the left fold, over the indices \<open>0..399\<close> of the prime
  table in ascending order (the table itself is strictly ascending), of the floating-point
  addition of \<open>(ap * log2(p)) / p\<close>, starting from \<open>0.0\<close>; here \<open>ap = - ls_sum\<close> and
  \<open>ls_sum\<close> is the sum over the residues \<open>x\<close> of \<open>[0, p)\<close> of the remapped value: 0 when
  \<open>f(x)\<close> is 0, \<open>-1\<close> when \<open>power_mod(f(x), (p-1)/2, p)\<close> is \<open>p - 1\<close>, and the result of
  \<open>power_mod\<close> otherwise, where \<open>f(x)\<close> is \<open>(x*x*x + A*x + B) % p\<close> as evaluated in int64.
  For \<open>|A| \<le> 10^12\<close> and \<open>|B| \<le> 10^12\<close> nothing wraps, \<open>f(x) = (x^3 + A*x + B) mod p\<close>, and
  the claim holds as it was stated. The floating-point operations are arbitrary, so no
  reordering of the additions is used.
\<close>

theorem analytic_score_is_fold:
  "map_sum id fst (analyze_physics ops A B) =
     Inr (foldl (\<lambda>total i. fadd ops total (score_term ops A B i)) (fzero ops) [0..<400])
   \<and> sorted_wrt (<) PRIMES
   \<and> (i < 400 \<longrightarrow>
        (\<exists>p lg. getitem PRIMES i = Inr p \<and> getitem (LOGS2 ops) i = Inr lg
           \<and> lg = flog2 ops (float_of_int ops p)
           \<and> score_term ops A B i =
               fdiv ops (fmul ops (float_of_int ops (local_trace_int64 A B p)) lg)
                 (float_of_int ops p)
           \<and> local_trace_int64 A B p = - (\<Sum>x = 0..<p. legendre_remap_int64 A B p x)
           \<and> ls_sum_loop A B p 0 0 = Inr (\<Sum>x = 0..<p. legendre_remap_int64 A B p x)
           \<and> (\<exists>v. power_mod (int64_residue A B p x) ((p - 1) div 2) p = Inr v
                \<and> legendre_remap_int64 A B p x =
                    (if int64_residue A B p x = 0 then 0
                     else if v = p - 1 then - 1 else v))
           \<and> int64_residue A B p x = wrap64 (x ^ 3 + A * x + B) mod p
           \<and> (\<bar>A\<bar> \<le> 10 ^ 12 \<and> \<bar>B\<bar> \<le> 10 ^ 12 \<longrightarrow>
                (0 \<le> x \<and> x < p \<longrightarrow> int64_residue A B p x = (x ^ 3 + A * x + B) mod p)
                \<and> local_trace_int64 A B p = - (\<Sum>x = 0..<p. legendre_remap A B p x))))"
proof -
  have c: "PRIMES_COUNT = 400" by (simp add: PRIMES_COUNT_def)
  have 1: "map_sum id fst (analyze_physics ops A B) =
     Inr (foldl (\<lambda>total i. fadd ops total (score_term ops A B i)) (fzero ops) [0..<400])"
    by (simp only: analyze_physics_eq analytic_score_def c map_sum.simps fst_conv id_apply)
  have 2: "\<exists>p lg. getitem PRIMES i = Inr p \<and> getitem (LOGS2 ops) i = Inr lg
           \<and> lg = flog2 ops (float_of_int ops p)
           \<and> score_term ops A B i =
               fdiv ops (fmul ops (float_of_int ops (local_trace_int64 A B p)) lg)
                 (float_of_int ops p)
           \<and> local_trace_int64 A B p = - (\<Sum>x = 0..<p. legendre_remap_int64 A B p x)
           \<and> ls_sum_loop A B p 0 0 = Inr (\<Sum>x = 0..<p. legendre_remap_int64 A B p x)
           \<and> (\<exists>v. power_mod (int64_residue A B p x) ((p - 1) div 2) p = Inr v
                \<and> legendre_remap_int64 A B p x =
                    (if int64_residue A B p x = 0 then 0
                     else if v = p - 1 then - 1 else v))
           \<and> int64_residue A B p x = wrap64 (x ^ 3 + A * x + B) mod p
           \<and> (\<bar>A\<bar> \<le> 10 ^ 12 \<and> \<bar>B\<bar> \<le> 10 ^ 12 \<longrightarrow>
                (0 \<le> x \<and> x < p \<longrightarrow> int64_residue A B p x = (x ^ 3 + A * x + B) mod p)
                \<and> local_trace_int64 A B p = - (\<Sum>x = 0..<p. legendre_remap A B p x))"
    if i: "i < 400"
  proof -
    define p where "p = PRIMES ! i"
    have il: "i < length PRIMES" using i by (simp only: length_PRIMES c)
    then have mem: "p \<in> set PRIMES" by (simp add: p_def)
    then have p: "1 < p" "(p - 1) * (p - 1) < 2 ^ 63" using PRIMES_small [of p] by simp_all
    have ple: "p \<le> 2741" using mem by (rule PRIMES_le_2741)
    have g1: "getitem PRIMES i = Inr p" using il by (simp add: getitem_def p_def)
    have g2: "getitem (LOGS2 ops) i = Inr (flog2 ops (float_of_int ops p))"
      using il by (simp add: getitem_def LOGS2_def p_def)
    have st: "score_term ops A B i =
        fdiv ops (fmul ops (float_of_int ops (local_trace_int64 A B p))
          (flog2 ops (float_of_int ops p))) (float_of_int ops p)"
      by (simp add: score_term_def p_def)
    have ls: "ls_sum_loop A B p 0 0 = Inr (\<Sum>x = 0..<p. legendre_remap_int64 A B p x)"
      using ls_sum_value [OF p] by (simp add: local_trace_int64_def)
    have ex: "\<bar>A\<bar> \<le> 10 ^ 12 \<and> \<bar>B\<bar> \<le> 10 ^ 12 \<longrightarrow>
                (0 \<le> x \<and> x < p \<longrightarrow> int64_residue A B p x = (x ^ 3 + A * x + B) mod p)
                \<and> local_trace_int64 A B p = - (\<Sum>x = 0..<p. legendre_remap A B p x)"
      using int64_residue_exact [of A B x p] local_trace_int64_exact [of A B p] ple
      by (auto simp: local_trace_def)
    have lt: "local_trace_int64 A B p = - (\<Sum>x = 0..<p. legendre_remap_int64 A B p x)"
      by (simp add: local_trace_int64_def)
    have ir: "int64_residue A B p x = wrap64 (x ^ 3 + A * x + B) mod p"
      by (simp add: int64_residue_def)
    from g1 g2 st ls lt ir ex legendre_remap_power_mod [OF p, of A B x]
    show ?thesis by blast
  qed
  from 1 2 PRIMES_strictly_sorted show ?thesis by blast
qed

theorem analytic_score_is_fold_witness:
  "(3::nat) < 400 \<and> PRIMES ! 3 = 7 \<and> \<bar>0::int\<bar> \<le> 10 ^ 12 \<and> \<bar>3::int\<bar> \<le> 10 ^ 12
   \<and> (0::int) \<le> 0 \<and> (0::int) < 7
   \<and> int64_residue 0 3 7 0 = (0 ^ 3 + 0 * 0 + 3) mod 7
   \<and> (\<exists>lg. getitem
               (LOGS2 \<lparr>fzero = 0::real, fadd = plus, fmul = times, fdiv = divide,
                        float_of_int = of_int, flog2 = log 2\<rparr>) 3 = Inr lg
         \<and> lg = log 2 (of_int 7)
         \<and> score_term \<lparr>fzero = 0::real, fadd = plus, fmul = times, fdiv = divide,
                        float_of_int = of_int, flog2 = log 2\<rparr> 0 3 3
             = of_int (local_trace_int64 0 3 7) * lg / of_int 7
         \<and> ls_sum_loop 0 3 7 0 0 = Inr (- local_trace_int64 0 3 7)
         \<and> local_trace_int64 0 3 7 = - (\<Sum>x = 0..<7. legendre_remap 0 3 7 x))"
proof -
  have h: "(3::nat) < 400" by simp
  have g: "getitem PRIMES 3 = Inr 7"
    using length_PRIMES by (simp add: getitem_def PRIMES_nth_3 PRIMES_COUNT_def)
  from analytic_score_is_fold [of "\<lparr>fzero = 0::real, fadd = plus, fmul = times, fdiv = divide,
        float_of_int = of_int, flog2 = log 2\<rparr>" 0 3 3 0] h g
  show ?thesis by (auto simp: PRIMES_nth_3)
qed

text \<open>
  Claim C2. For every pair of int64 integers \<open>(A, B)\<close> the dynamic resistance returned by
  \<open>analyze_physics\<close> is the maximum, over the 400 (distinct) primes \<open>p\<close> of the table, of
  the step count of the glide loop entered with \<open>curr = Np = p + 1 - ap\<close> and no step
  taken, \<open>ap = - ls_sum\<close> being the trace that the inner loop computes. The loop:
  while \<open>curr > 1\<close> and fewer than 300 steps have been taken, halve an even \<open>curr\<close> or
  replace an odd one by \<open>3 * curr + 1\<close>, count the step, and stop right after a step that
  leaves \<open>curr < Np\<close>. Its step count is the least \<open>k\<close> such that \<open>k = 300\<close>, or the \<open>k\<close>-th
  iterate of the 3x+1 map from \<open>Np\<close> is at most 1, or \<open>k > 0\<close> and that iterate is below
  \<open>Np\<close>. So no step is taken from \<open>Np \<le> 1\<close>, and an even \<open>Np > 1\<close> stops after its first
  step.
\<close>

theorem dynamic_resistance_is_max:
  "map_sum id snd (analyze_physics ops A B) =
     Inr (Max ((\<lambda>p. glide_loop (p + 1 - local_trace_int64 A B p)
                       (p + 1 - local_trace_int64 A B p) 0) ` set PRIMES))
   \<and> length PRIMES = 400 \<and> distinct PRIMES
   \<and> (p \<in> set PRIMES \<longrightarrow> ls_sum_loop A B p 0 0 = Inr (- local_trace_int64 A B p))
   \<and> glide_loop Np cur steps =
       (if cur > 1 \<and> steps < 300
        then (if (if cur mod 2 = 0 then cur div 2 else 3 * cur + 1) < Np then steps + 1
              else glide_loop Np (if cur mod 2 = 0 then cur div 2 else 3 * cur + 1) (steps + 1))
        else steps)
   \<and> glide_loop Np Np 0 =
       int (LEAST k. k = 300 \<or> (collatz_step ^^ k) Np \<le> 1
                   \<or> (0 < k \<and> (collatz_step ^^ k) Np < Np))
   \<and> collatz_step cur = (if cur mod 2 = 0 then cur div 2 else 3 * cur + 1)
   \<and> (Np \<le> 1 \<longrightarrow> glide_loop Np Np 0 = 0)
   \<and> (1 < Np \<and> Np mod 2 = 0 \<longrightarrow> glide_loop Np Np 0 = 1)"
proof -
  have 1: "map_sum id snd (analyze_physics ops A B) =
     Inr (Max ((\<lambda>p. glide_loop (p + 1 - local_trace_int64 A B p)
                       (p + 1 - local_trace_int64 A B p) 0) ` set PRIMES))"
    by (simp add: analyze_physics_eq dynamic_resistance_def glide_value_def group_order_def)
  have 2: "length PRIMES = 400"
    by (simp only: length_PRIMES PRIMES_COUNT_def)
  have "distinct (primerange 2 3000)"
    unfolding primerange_def by (intro distinct_filter distinct_upto)
  then have 3: "distinct PRIMES"
    unfolding PRIMES_def by (rule distinct_take)
  have 4: "p \<in> set PRIMES \<longrightarrow> ls_sum_loop A B p 0 0 = Inr (- local_trace_int64 A B p)"
    using PRIMES_small [of p] ls_sum_value [of p A B] by simp
  have 5: "glide_loop Np cur steps =
       (if cur > 1 \<and> steps < 300
        then (if (if cur mod 2 = 0 then cur div 2 else 3 * cur + 1) < Np then steps + 1
              else glide_loop Np (if cur mod 2 = 0 then cur div 2 else 3 * cur + 1) (steps + 1))
        else steps)"
    by (subst glide_loop.simps) (simp add: Let_def drop_bit_eq_div)
  have 6: "glide_loop Np Np 0 =
       int (LEAST k. k = 300 \<or> (collatz_step ^^ k) Np \<le> 1
                   \<or> (0 < k \<and> (collatz_step ^^ k) Np < Np))"
    using glide_loop_least [of Np] by (simp only: glide_stop_def)
  have 7: "collatz_step cur = (if cur mod 2 = 0 then cur div 2 else 3 * cur + 1)"
    by (simp add: collatz_step_def)
  have 8: "Np \<le> 1 \<longrightarrow> glide_loop Np Np 0 = 0"
    using glide_zero [of Np] by (simp add: glide_value_def)
  have 9: "1 < Np \<and> Np mod 2 = 0 \<longrightarrow> glide_loop Np Np 0 = 1"
    using glide_even [of Np] by (simp add: glide_value_def)
  from 1 2 3 4 5 6 7 8 9 show ?thesis by blast
qed

theorem dynamic_resistance_is_max_witness:
  "7 \<in> set PRIMES \<and> ls_sum_loop 0 3 7 0 0 = Inr (- local_trace_int64 0 3 7)
   \<and> (1::int) < 4 \<and> (4::int) mod 2 = 0 \<and> glide_loop 4 4 0 = 1
   \<and> (1::int) \<le> 1 \<and> glide_loop 1 1 0 = 0
   \<and> glide_loop 3 3 0 = 6 \<and> glide_loop 27 27 0 = 96
   \<and> glide_loop 1126015 1126015 0 = 300
   \<and> length PRIMES = 400"
  using dynamic_resistance_is_max [of "\<lparr>fzero = 0::real, fadd = plus, fmul = times, fdiv = divide,
        float_of_int = of_int, flog2 = log 2\<rparr>" 0 3 7 4 4 0]
    dynamic_resistance_is_max [of "\<lparr>fzero = 0::real, fadd = plus, fmul = times, fdiv = divide,
        float_of_int = of_int, flog2 = log 2\<rparr>" 0 3 7 1 1 0]
    seven_in_PRIMES glide_3 glide_loop_27 glide_loop_capped
  by (simp add: glide_value_def)

text \<open>
  Claim C6. For every starting value \<open>Np \<ge> 1\<close> the glide loop terminates (\<open>glide_loop\<close>
  is a total function: each iteration increases \<open>steps\<close>, which is capped) with a step
  count between 0 and 300; so for every pair \<open>(A, B)\<close> the call of \<open>analyze_physics\<close>
  returns, and the dynamic resistance it returns is at most 300.
\<close>

theorem glide_capped:
  assumes "1 \<le> Np"
  shows "0 \<le> glide_loop Np Np 0 \<and> glide_loop Np Np 0 \<le> 300
       \<and> (\<exists>score g. analyze_physics ops A B = Inr (score, g) \<and> g \<le> 300)"
proof -
  have b: "0 \<le> glide_loop Np Np 0 \<and> glide_loop Np Np 0 \<le> 300"
    using glide_loop_bounds [of 0 Np Np] by simp
  have "Max ((\<lambda>p. glide_value (group_order A B p)) ` set PRIMES)
      \<in> (\<lambda>p. glide_value (group_order A B p)) ` set PRIMES"
  proof (rule Max_in)
    show "finite ((\<lambda>p. glide_value (group_order A B p)) ` set PRIMES)" by simp
    have "PRIMES \<noteq> []" using length_PRIMES PRIMES_COUNT_pos by auto
    then show "(\<lambda>p. glide_value (group_order A B p)) ` set PRIMES \<noteq> {}" by simp
  qed
  then have "dynamic_resistance A B \<le> 300"
    using glide_bounds by (auto simp: dynamic_resistance_def)
  with b show ?thesis
    by (simp add: analyze_physics_eq)
qed

theorem glide_capped_witness:
  "(1::int) \<le> 3 \<and> glide_loop 3 3 0 = 6 \<and> glide_loop 3 3 0 \<le> 300"
proof -
  have h: "(1::int) \<le> 3" by simp
  have "glide_loop 3 3 0 = 6" using glide_3 by (simp add: glide_value_def)
  with glide_capped [OF h] show ?thesis by simp
qed

text \<open>
  Claim C7. For every pair of integers \<open>(A, B)\<close> and every prime \<open>p\<close> of the table, the
  inner loop returns an \<open>ls_sum \<ge> - p\<close>, because every per-residue value is at least
  \<open>-1\<close> and \<open>range(p)\<close> has exactly \<open>p\<close> elements; so \<open>ap = - ls_sum \<le> p\<close> and the local
  group order \<open>Np = p + 1 - ap\<close> is at least 1.
\<close>

theorem group_order_positive:
  assumes "p \<in> set PRIMES"
  shows "\<exists>ls_sum. ls_sum_loop A B p 0 0 = Inr ls_sum \<and> - p \<le> ls_sum
       \<and> (let ap = - ls_sum; Np = p + 1 - ap in 1 \<le> Np)
       \<and> (\<exists>val. legendre_val A B p x = Inr val \<and> - 1 \<le> val)
       \<and> int (card {0..<p}) = p"
proof -
  have p: "1 < p" "(p - 1) * (p - 1) < 2 ^ 63" using PRIMES_small [OF assms] by simp_all
  have ls: "ls_sum_loop A B p 0 0 = Inr (- local_trace_int64 A B p)"
    using p by (rule ls_sum_value)
  have le: "local_trace_int64 A B p \<le> p" using p(1) by (rule local_trace_int64_le)
  have v: "legendre_val A B p x = Inr (legendre_remap_int64 A B p x)"
    using p by (rule legendre_val_eq)
  have b: "- 1 \<le> legendre_remap_int64 A B p x"
    using legendre_remap_int64_bounds [OF p(1)] by simp
  show ?thesis
    using p(1) le by (simp add: ls v b Let_def)
qed

theorem group_order_positive_witness:
  "7 \<in> set PRIMES \<and> (\<exists>ls_sum. ls_sum_loop 0 3 7 0 0 = Inr ls_sum \<and> - 7 \<le> ls_sum
       \<and> 1 \<le> 7 + 1 - (- ls_sum))"
proof -
  from group_order_positive [OF seven_in_PRIMES, of 0 3 0]
  show ?thesis using seven_in_PRIMES by (auto simp: Let_def)
qed

text \<open>
  Claim C4. Every entry \<open>p\<close> of the table is prime (and small: \<open>(p - 1)^2 < 2^63\<close>), and
  for such a prime \<open>p\<close>, every pair of integers \<open>(A, B)\<close> and every residue \<open>x\<close>, the
  per-residue value added to \<open>ls_sum\<close> is \<open>-1\<close>, 0 or 1; equivalently, for every nonzero
  residue \<open>r mod p\<close>, that of \<open>f(x)\<close> in particular, \<open>power_mod(r mod p, (p-1)/2, p)\<close>
  returns 1 or \<open>p - 1\<close> (Euler's criterion).
\<close>

theorem legendre_values:
  "(p \<in> set PRIMES \<longrightarrow> is_prime p \<and> (p - 1) * (p - 1) < 2 ^ 63)
   \<and> (is_prime p \<and> (p - 1) * (p - 1) < 2 ^ 63 \<longrightarrow>
        (\<exists>val. legendre_val A B p x = Inr val \<and> (val = - 1 \<or> val = 0 \<or> val = 1))
        \<and> (r mod p \<noteq> 0 \<longrightarrow>
             (\<exists>w. power_mod (r mod p) ((p - 1) div 2) p = Inr w \<and> (w = 1 \<or> w = p - 1))))"
proof -
  have 1: "p \<in> set PRIMES \<longrightarrow> is_prime p \<and> (p - 1) * (p - 1) < 2 ^ 63"
    using PRIMES_member [of p] PRIMES_small [of p] by simp
  have 2: "(\<exists>val. legendre_val A B p x = Inr val \<and> (val = - 1 \<or> val = 0 \<or> val = 1))
        \<and> (r mod p \<noteq> 0 \<longrightarrow>
             (\<exists>w. power_mod (r mod p) ((p - 1) div 2) p = Inr w \<and> (w = 1 \<or> w = p - 1)))"
    if pr: "is_prime p" and small: "(p - 1) * (p - 1) < 2 ^ 63"
  proof -
    have p: "1 < p" using pr by (simp add: is_prime_iff)
    have e: "0 \<le> (p - 1) div 2" using p by simp
    have pm: "power_mod (s mod p) ((p - 1) div 2) p = Inr ((s mod p) ^ nat ((p - 1) div 2) mod p)"
      for s
      using e p small by (rule power_mod_value)
    have w: "(s mod p) ^ nat ((p - 1) div 2) mod p = 1
        \<or> (s mod p) ^ nat ((p - 1) div 2) mod p = p - 1" if nz: "s mod p \<noteq> 0" for s
    proof -
      have "s mod p mod p = s mod p" by simp
      with nz have "\<not> p dvd s mod p" by (simp only: dvd_eq_mod_eq_0 not_False_eq_True)
      with pr show ?thesis by (rule euler_criterion_values)
    qed
    define fx where "fx = int64_residue A B p x"
    have fxm: "fx mod p = fx"
      using int64_residue_bounds [of p A B x] p by (simp add: fx_def)
    have lv: "legendre_val A B p x = Inr (legendre_remap_int64 A B p x)"
      using p small by (rule legendre_val_eq)
    have "legendre_remap_int64 A B p x = - 1 \<or> legendre_remap_int64 A B p x = 0
        \<or> legendre_remap_int64 A B p x = 1"
      using w [of fx] fxm by (auto simp: legendre_remap_int64_def Let_def fx_def [symmetric])
    then have "\<exists>val. legendre_val A B p x = Inr val \<and> (val = - 1 \<or> val = 0 \<or> val = 1)"
      by (simp add: lv)
    moreover have "r mod p \<noteq> 0 \<longrightarrow>
        (\<exists>w. power_mod (r mod p) ((p - 1) div 2) p = Inr w \<and> (w = 1 \<or> w = p - 1))"
      using w [of r] pm [of r] by simp
    ultimately show ?thesis by blast
  qed
  from 1 2 show ?thesis by blast
qed

theorem legendre_values_witness:
  "7 \<in> set PRIMES \<and> is_prime 7 \<and> ((7::int) - 1) * (7 - 1) < 2 ^ 63
   \<and> legendre_val 0 3 7 0 = Inr (- 1)
   \<and> ((0 * 0 * 0 + 0 * 0 + 3) mod 7 \<noteq> (0::int))
   \<and> power_mod ((0 * 0 * 0 + 0 * 0 + 3) mod 7) ((7 - 1) div 2) 7 = Inr (7 - 1)"
proof -
  have s: "(1::int) < 7" "((7::int) - 1) * (7 - 1) < 2 ^ 63" by simp_all
  have pm: "power_mod 3 3 7 = Inr 6"
    using power_mod_value [of 3 7 3] by (simp add: eval_nat_numeral)
  have lv: "legendre_val 0 3 7 0 = Inr (- 1)"
    by (simp add: legendre_val_eq [OF s] legendre_remap_int64_def int64_residue_def wrap64_eq
        eval_nat_numeral)
  from legendre_values [of 7 0 3 0 3] seven_in_PRIMES lv pm show ?thesis by simp
qed

section \<open>The probe classification\<close>

text \<open>
  Claim C8. The probe classification is a function of \<open>(score, glide)\<close> alone, with strict
  comparisons: ``high-rank candidate'' exactly when \<open>score < -25.0\<close> and \<open>glide > 65\<close>;
  otherwise ``low rank'' exactly when \<open>score > -10.0\<close>; ``indeterminate'' in all remaining
  cases. In particular \<open>(-26.0, 70)\<close> is a high-rank candidate and \<open>(-20.0, 90)\<close> is
  indeterminate.
\<close>

theorem probe_manual_classification_thresholds:
  "(probe_manual_classification score glide = HIGH_RANK_CANDIDATE
      \<longleftrightarrow> float_lt score (Finite (- 25.0)) \<and> glide > 65)
   \<and> (probe_manual_classification score glide = LOW_RANK
      \<longleftrightarrow> \<not> (float_lt score (Finite (- 25.0)) \<and> glide > 65)
          \<and> float_gt score (Finite (- 10.0)))
   \<and> (probe_manual_classification score glide = INDETERMINATE
      \<longleftrightarrow> \<not> (float_lt score (Finite (- 25.0)) \<and> glide > 65)
          \<and> \<not> float_gt score (Finite (- 10.0)))
   \<and> probe_manual_classification (Finite (- 26.0)) 70 = HIGH_RANK_CANDIDATE
   \<and> probe_manual_classification (Finite (- 20.0)) 90 = INDETERMINATE"
  by (simp add: probe_manual_classification_def float_gt_def)

theorem probe_manual_classification_thresholds_witness:
  "probe_manual_classification (Finite (- 26.0)) 70 = HIGH_RANK_CANDIDATE
   \<and> probe_manual_classification (Finite (- 20.0)) 90 = INDETERMINATE
   \<and> probe_manual_classification (Finite (- 25.0)) 70 = INDETERMINATE
   \<and> probe_manual_classification (Finite (- 26.0)) 65 = INDETERMINATE
   \<and> probe_manual_classification (Finite (- 10.0)) 0 = INDETERMINATE
   \<and> probe_manual_classification (Finite (- 9.5)) 0 = LOW_RANK
   \<and> probe_manual_classification NaN 70 = INDETERMINATE"
  using probe_manual_classification_thresholds [of "Finite (- 26.0)" 70]
  by (simp add: probe_manual_classification_def float_gt_def)

end
